theory Spec2Isabelle
  imports Complex_Main "HOL-Library.Multiset"
begin

section \<open>Permission model (src/domain/permission.ts)\<close>

text \<open>
  A permission is a JavaScript string of the shape \<open>resource:action\<close> or
  \<open>resource:*\<close>. The TypeScript template-literal type \<open>Permission\<close> exists only at
  compile time; at run time every function below receives a plain string, so
  permissions are modelled as \<open>string\<close>.
\<close>

type_synonym Permission = string

definition PERMISSIONS :: "Permission list" where
  "PERMISSIONS =
    [''user:create'', ''user:read'', ''user:update'', ''user:delete'', ''user:list'',
     ''role:read'', ''role:list'', ''role:assign'',
     ''session:read'', ''session:list'', ''session:invalidate'',
     ''mfa:setup'', ''mfa:verify'',
     ''auth:login'', ''auth:logout'',
     ''audit:read'',
     ''oauth:read'', ''oauth:list'', ''oauth:delete'']"

definition VALID_RESOURCES :: "string list" where
  "VALID_RESOURCES =
    [''user'', ''role'', ''session'', ''mfa'', ''auth'', ''audit'', ''oauth'']"

definition VALID_ACTIONS :: "string list" where
  "VALID_ACTIONS =
    [''create'', ''read'', ''update'', ''delete'', ''assign'', ''verify'', ''setup'',
     ''login'', ''logout'', ''list'', ''invalidate'', ''rotate'']"

definition ALL_PERMISSIONS_SET :: "Permission list" where
  "ALL_PERMISSIONS_SET = PERMISSIONS"

text \<open>
  \<open>String.prototype.split\<close> with a one-character separator: the pieces between the
  occurrences of the separator, so a string without the separator gives one piece
  and the empty string gives one empty piece.
\<close>

fun split :: "char \<Rightarrow> string \<Rightarrow> string list" where
  "split c [] = [[]]"
| "split c (x # xs) =
     (if x = c then [] # split c xs
      else (case split c xs of
              [] \<Rightarrow> [[x]]
            | y # ys \<Rightarrow> (x # y) # ys))"

text \<open>
  The destructuring \<open>const [res, act] = value.split(':')\<close>: the first two pieces,
  \<open>undefined\<close> (here \<open>None\<close>) where the array is too short; further pieces are
  dropped.
\<close>

definition destructure2 :: "string list \<Rightarrow> string option \<times> string option" where
  "destructure2 parts =
     (case parts of
        [] \<Rightarrow> (None, None)
      | [r] \<Rightarrow> (Some r, None)
      | r # a # _ \<Rightarrow> (Some r, Some a))"

text \<open>JavaScript truthiness of a possibly undefined string: defined and non-empty.\<close>

definition truthy :: "string option \<Rightarrow> bool" where
  "truthy v = (case v of None \<Rightarrow> False | Some s \<Rightarrow> s \<noteq> [])"

definition isPermission :: "string \<Rightarrow> bool" where
  "isPermission v =
     (case destructure2 (split CHR '':'' v) of (res, act) \<Rightarrow>
        if \<not> truthy res \<or> \<not> truthy act then False
        else
          let validResource = (the res \<in> set VALID_RESOURCES) in
          if \<not> validResource then False
          else if act = Some ''*'' then True
          else the act \<in> set VALID_ACTIONS
               \<and> (the res @ '':'' @ the act) \<in> set ALL_PERMISSIONS_SET)"

definition permissionImplies :: "Permission \<Rightarrow> Permission \<Rightarrow> bool" where
  "permissionImplies grant required =
     (case destructure2 (split CHR '':'' grant) of (gRes, gAct) \<Rightarrow>
      case destructure2 (split CHR '':'' required) of (rRes, rAct) \<Rightarrow>
        if gRes \<noteq> rRes then False
        else if gAct = Some ''*'' then True
        else gAct = rAct)"

fun hasPermission :: "Permission list \<Rightarrow> Permission \<Rightarrow> bool" where
  "hasPermission [] required = False"
| "hasPermission (g # granted) required =
     (if permissionImplies g required then True else hasPermission granted required)"

definition hasAllPermissions :: "Permission list \<Rightarrow> Permission list \<Rightarrow> bool" where
  "hasAllPermissions granted requiredAll = list_all (hasPermission granted) requiredAll"

definition hasAnyPermission :: "Permission list \<Rightarrow> Permission list \<Rightarrow> bool" where
  "hasAnyPermission granted requiredAny = list_ex (hasPermission granted) requiredAny"

text \<open>
  \<open>ROLE_PRESETS\<close> is an object with exactly four own keys; looking up any other
  name gives \<open>None\<close>.
\<close>

definition ROLE_PRESETS :: "string \<Rightarrow> Permission list option" where
  "ROLE_PRESETS n =
     (if n = ''admin'' then Some
        [''user:*'', ''role:assign'', ''role:read'', ''role:list'', ''session:list'',
         ''session:invalidate'', ''mfa:setup'', ''mfa:verify'', ''auth:login'',
         ''auth:logout'', ''audit:read'', ''oauth:list'', ''oauth:read'', ''oauth:delete'']
      else if n = ''security-analyst'' then Some
        [''user:read'', ''user:list'', ''role:read'', ''role:list'', ''session:list'',
         ''session:read'', ''session:invalidate'', ''audit:read'']
      else if n = ''support'' then Some
        [''user:read'', ''user:list'', ''mfa:verify'', ''auth:login'', ''auth:logout'']
      else if n = ''user'' then Some
        [''auth:login'', ''auth:logout'', ''mfa:setup'', ''mfa:verify'', ''user:read'',
         ''user:update'']
      else None)"



section \<open>Role model (src/domain/role.ts)\<close>

record Role =
  name :: string
  permissions :: "Permission list"
  description :: "string option"

definition isRoleName :: "string \<Rightarrow> bool" where
  "isRoleName n = (ROLE_PRESETS n \<noteq> None)"

definition getPresetPermissions :: "string \<Rightarrow> Permission list" where
  "getPresetPermissions n = (if isRoleName n then the (ROLE_PRESETS n) else [])"

text \<open>
  \<open>Set.prototype.add\<close> on a \<open>Set\<close> kept as the list of its elements in insertion
  order: an element already present keeps its place.
\<close>

definition set_add :: "'a list \<Rightarrow> 'a \<Rightarrow> 'a list" where
  "set_add s x = (if x \<in> set s then s else s @ [x])"

text \<open>The loop \<open>for (const p of perms) if (isPermission(p)) unique.add(p)\<close>.\<close>

fun collectValid :: "Permission list \<Rightarrow> string list \<Rightarrow> Permission list" where
  "collectValid unique [] = unique"
| "collectValid unique (p # perms) =
     collectValid (if isPermission p then set_add unique p else unique) perms"

definition MAX_SAFE_INTEGER :: int where
  "MAX_SAFE_INTEGER = 9007199254740991"

text \<open>
  \<open>Object.fromEntries(PERMISSIONS.map((p, i) => [p, i]))\<close>: a later entry with the
  same key would win, hence the reversed association list.
\<close>

definition orderIndex :: "string \<Rightarrow> int option" where
  "orderIndex = map_of (rev (zip PERMISSIONS (map int [0 ..< length PERMISSIONS])))"

text \<open>The sort key \<open>orderIndex[a] ?? Number.MAX_SAFE_INTEGER\<close>.\<close>

definition sortKey :: "string \<Rightarrow> int" where
  "sortKey a = (case orderIndex a of Some i \<Rightarrow> i | None \<Rightarrow> MAX_SAFE_INTEGER)"

text \<open>
  \<open>Array.prototype.sort\<close> is stable (ECMAScript 2019), and the comparator
  \<open>(a, b) => ai - bi\<close> orders by the integer key, so the call is the stable sort by
  \<open>sortKey\<close>: elements with equal keys keep their insertion order.
\<close>

definition normalizePermissions :: "string list \<Rightarrow> Permission list" where
  "normalizePermissions perms = sort_key sortKey (collectValid [] perms)"

text \<open>
  \<open>createRole\<close>; the \<open>description\<close> property is present only when it was passed.
\<close>

definition createRole :: "string \<Rightarrow> string option \<Rightarrow> string list option \<Rightarrow> Role" where
  "createRole n descr extraPermissions =
     (let base = getPresetPermissions n;
          extras = (case extraPermissions of None \<Rightarrow> [] | Some e \<Rightarrow> e);
          merged = normalizePermissions (base @ extras)
      in \<lparr> name = n, permissions = merged, description = descr \<rparr>)"

datatype merge_input = ARole Role | APermissions "string list"

fun pushAll :: "string list \<Rightarrow> merge_input list \<Rightarrow> string list" where
  "pushAll all [] = all"
| "pushAll all (ARole r # inputs) = pushAll (all @ permissions r) inputs"
| "pushAll all (APermissions ps # inputs) = pushAll (all @ ps) inputs"

definition mergeRolesPermissions :: "merge_input list \<Rightarrow> Permission list" where
  "mergeRolesPermissions inputs = normalizePermissions (pushAll [] inputs)"

definition isValidRole :: "Role \<Rightarrow> bool" where
  "isValidRole r = list_all isPermission (permissions r)"

text \<open>
  The first occurrences of the elements of a list, in order: the content of a
  \<open>Set\<close> filled from the list. Used to describe \<open>collectValid\<close>.
\<close>

definition firsts :: "'a list \<Rightarrow> 'a list" where
  "firsts xs = rev (remdups (rev xs))"

section \<open>Errors\<close>

text \<open>
  The codes of \<open>AuthError\<close> (src/services/auth.service.ts). An \<open>AuthError\<close> is
  modelled by its code; its message is fixed at each throw site. The repositories
  throw a plain \<open>Error\<close> with a message, and \<open>Date.prototype.toISOString\<close>
  throws a \<open>RangeError\<close> on an invalid date.
\<close>

datatype code =
    INVALID_EMAIL | WEAK_PASSWORD | EMAIL_TAKEN | USER_NOT_FOUND | INVALID_CREDENTIALS
  | ACCOUNT_LOCKED | MFA_REQUIRED | MFA_NOT_ENABLED | MFA_INVALID
  | SESSION_NOT_FOUND | SESSION_INACTIVE

datatype error = AuthError code | Error string | RangeError

section \<open>Session entity (src/domain/session.ts)\<close>

text \<open>
  A \<open>Date\<close> is modelled by its time value, an integer number of milliseconds since
  the epoch. A time value beyond \<open>8.64e15\<close> in magnitude stands for an Invalid
  Date, whose time value is \<open>NaN\<close> in the source: \<open>toISOString\<close> throws a
  \<open>RangeError\<close> on it and every comparison with it is false. The timestamps of a
  session are ISO-8601 strings in the source, written by
  \<open>toISOString\<close> and, for a stored session, checked by \<open>isValidSession\<close> to
  parse; the model keeps the instant they denote, which writing and parsing
  preserve. An optional field that is \<open>undefined\<close> (or absent from the stored
  JSON) is \<open>None\<close>.
\<close>

definition MAX_TIME :: int where
  "MAX_TIME = 8640000000000000"

definition validDate :: "int \<Rightarrow> bool" where
  "validDate t = (- MAX_TIME \<le> t \<and> t \<le> MAX_TIME)"

definition toISOString :: "int \<Rightarrow> error + int" where
  "toISOString t = (if validDate t then Inr t else Inl RangeError)"

text \<open>
  A JavaScript number that need not be a whole number of milliseconds
  (\<open>ttlMinutes\<close>, which the command line reads with \<open>Number(opts.ttl)\<close>): a finite
  value, kept as a rational, or one of \<open>NaN\<close>, \<open>Infinity\<close> and \<open>-Infinity\<close>, which
  need not be told apart here, since a sum or a product with one of them is again
  one of them. The source rounds every finite sum and product to the nearest
  double; the model keeps it exact.
\<close>

datatype number = Finite rat | NotFinite

fun mul :: "number \<Rightarrow> number \<Rightarrow> number" where
  "mul (Finite a) (Finite b) = Finite (a * b)"
| "mul _ _ = NotFinite"

fun add :: "number \<Rightarrow> number \<Rightarrow> number" where
  "add (Finite a) (Finite b) = Finite (a + b)"
| "add _ _ = NotFinite"

text \<open>
  \<open>new Date(value)\<close> on a number: a value that is not finite or lies beyond the
  range gives an Invalid Date (here the time value \<open>INVALID_DATE\<close>, which is not
  valid), any other value is truncated toward zero to a whole millisecond.
\<close>

definition toIntegerOrInfinity :: "rat \<Rightarrow> int" where
  "toIntegerOrInfinity v = (if 0 \<le> v then \<lfloor>v\<rfloor> else \<lceil>v\<rceil>)"

definition INVALID_DATE :: int where
  "INVALID_DATE = MAX_TIME + 1"

definition newDate :: "number \<Rightarrow> int" where
  "newDate v =
     (case v of
        NotFinite \<Rightarrow> INVALID_DATE
      | Finite q \<Rightarrow> if \<bar>q\<bar> \<le> of_int MAX_TIME then toIntegerOrInfinity q else INVALID_DATE)"

record Session =
  id_session :: string
  userId :: string
  issuedAt :: int
  expiresAt :: int
  lastUsedAt :: int
  revokedAt :: "int option"
  ipHash :: "string option"
  userAgent :: "string option"

record PublicSession =
  pub_id_session :: string
  pub_userId :: string
  pub_issuedAt :: int
  pub_expiresAt :: int
  pub_lastUsedAt :: int
  pub_isActive :: bool

text \<open>
  \<open>createSession\<close>. The argument \<open>now\<close> is \<open>params.now ?? new Date()\<close> already
  resolved by the caller of the model (the current time where the source passes no
  \<open>now\<close>); \<open>ttlMinutes\<close> is \<open>None\<close> where the source would see \<open>undefined\<close>
  and fall back to 60. The expiry is
  \<open>new Date(now.getTime() + ttlMinutes * 60_000).toISOString()\<close>.
\<close>

definition createSession ::
  "string \<Rightarrow> string \<Rightarrow> number option \<Rightarrow> int \<Rightarrow> string option \<Rightarrow> string option
     \<Rightarrow> error + Session" where
  "createSession sid uid ttlMinutes now ip ua =
     (case toISOString now of
        Inl e \<Rightarrow> Inl e
      | Inr issued \<Rightarrow>
         (case toISOString
                 (newDate (add (Finite (of_int now))
                             (mul (case ttlMinutes of None \<Rightarrow> Finite 60 | Some m \<Rightarrow> m)
                                (Finite 60000)))) of
            Inl e \<Rightarrow> Inl e
          | Inr expires \<Rightarrow>
              Inr \<lparr> id_session = sid, userId = uid, issuedAt = issued, expiresAt = expires,
                    lastUsedAt = issued, revokedAt = None, ipHash = ip, userAgent = ua \<rparr>))"

text \<open>
  The mutators take the date \<open>when\<close> (by default the current time) and return the
  mutated session; on an invalid \<open>when\<close> the call \<open>when.toISOString()\<close> throws
  before the field is assigned.
\<close>

definition touchSession :: "Session \<Rightarrow> int \<Rightarrow> error + Session" where
  "touchSession s when =
     (case toISOString when of
        Inl e \<Rightarrow> Inl e
      | Inr t \<Rightarrow> Inr (s\<lparr> lastUsedAt := t \<rparr>))"

definition revokeSession :: "Session \<Rightarrow> int \<Rightarrow> error + Session" where
  "revokeSession s when =
     (case toISOString when of
        Inl e \<Rightarrow> Inl e
      | Inr t \<Rightarrow> Inr (s\<lparr> revokedAt := Some t \<rparr>))"

text \<open>
  \<open>isExpired\<close> compares \<open>new Date(s.expiresAt).getTime() <= at.getTime()\<close>; when
  \<open>at\<close> is an Invalid Date its time value is \<open>NaN\<close> and the comparison is false.
\<close>

definition isExpired :: "Session \<Rightarrow> int \<Rightarrow> bool" where
  "isExpired s at_date = (validDate at_date \<and> expiresAt s \<le> at_date)"

text \<open>
  \<open>!s.revokedAt\<close> is true when the field is \<open>undefined\<close>; an ISO string written
  by \<open>revokeSession\<close> is never empty, hence truthy.
\<close>

definition isActive :: "Session \<Rightarrow> int \<Rightarrow> bool" where
  "isActive s at_date = (revokedAt s = None \<and> \<not> isExpired s at_date)"

definition toPublicSession :: "Session \<Rightarrow> int \<Rightarrow> PublicSession" where
  "toPublicSession s at_date =
     \<lparr> pub_id_session = id_session s, pub_userId = userId s, pub_issuedAt = issuedAt s,
       pub_expiresAt = expiresAt s, pub_lastUsedAt = lastUsedAt s,
       pub_isActive = isActive s at_date \<rparr>"

section \<open>User entity (src/domain/user.ts)\<close>

text \<open>
  The optional fields of the interface (\<open>mfaEnabled?\<close>, \<open>failedLoginAttempts?\<close>,
  \<open>lockedUntil?\<close> and those typed \<open>\<dots> | undefined\<close>) are options. The counters
  are JavaScript numbers holding integers. \<open>createdAt\<close> and \<open>updatedAt\<close> are
  instants, as for sessions.
\<close>

record User =
  id_user :: string
  email :: string
  passHash :: string
  salt :: "string option"
  roles :: "string list"
  extraPermissions :: "Permission list"
  mfaEnabled :: "bool option"
  mfaSecret :: "string option"
  recoveryCodes :: "string list option"
  failedLoginAttempts :: "int option"
  lockedUntil :: "int option"
  createdAt :: int
  updatedAt :: int

record PublicUser =
  pub_id_user :: string
  pub_email :: string
  pub_roles :: "string list"
  pub_permissions :: "Permission list"
  pub_mfaEnabled :: bool
  pub_createdAt :: int
  pub_updatedAt :: int

text \<open>
  The loop of \<open>getEffectivePermissions\<close> over \<open>user.roles\<close> when a non-empty
  catalog was passed: \<open>roleCatalog.find(r => r.name === rName)\<close>, else the preset
  built by \<open>createRole({ name: rName })\<close>, else nothing is pushed.
\<close>

fun rolesFromCatalogLoop :: "Role list \<Rightarrow> Role list \<Rightarrow> string list \<Rightarrow> Role list" where
  "rolesFromCatalogLoop roleCatalog acc [] = acc"
| "rolesFromCatalogLoop roleCatalog acc (rName # rest) =
     (case find (\<lambda>r. name r = rName) roleCatalog of
        Some r \<Rightarrow> rolesFromCatalogLoop roleCatalog (acc @ [r]) rest
      | None \<Rightarrow>
          if isRoleName rName
          then rolesFromCatalogLoop roleCatalog (acc @ [createRole rName None None]) rest
          else rolesFromCatalogLoop roleCatalog acc rest)"

text \<open>The loop of the other branch: no catalog, or an empty one.\<close>

fun rolesFromPresetsLoop :: "Role list \<Rightarrow> string list \<Rightarrow> Role list" where
  "rolesFromPresetsLoop acc [] = acc"
| "rolesFromPresetsLoop acc (rName # rest) =
     (if isRoleName rName
      then rolesFromPresetsLoop (acc @ [createRole rName None None]) rest
      else rolesFromPresetsLoop
             (acc @ [\<lparr> name = rName, permissions = [], description = None \<rparr>]) rest)"

text \<open>
  \<open>getEffectivePermissions\<close>. The guard \<open>user.extraPermissions ?? []\<close> never
  fires on a value of the declared type \<open>Permission[]\<close>.
\<close>

definition getEffectivePermissions :: "User \<Rightarrow> Role list option \<Rightarrow> Permission list" where
  "getEffectivePermissions user roleCatalog =
     (let rolesFromCatalog =
            (case roleCatalog of
               None \<Rightarrow> rolesFromPresetsLoop [] (roles user)
             | Some cat \<Rightarrow>
                 if cat \<noteq> [] then rolesFromCatalogLoop cat [] (roles user)
                 else rolesFromPresetsLoop [] (roles user))
      in mergeRolesPermissions
           (map ARole rolesFromCatalog @ [APermissions (extraPermissions user)]))"

definition userCan :: "User \<Rightarrow> Permission \<Rightarrow> Role list option \<Rightarrow> bool" where
  "userCan user required roleCatalog =
     hasPermission (getEffectivePermissions user roleCatalog) required"

definition toPublicUser :: "User \<Rightarrow> Role list option \<Rightarrow> PublicUser" where
  "toPublicUser u roleCatalog =
     (let perms = getEffectivePermissions u roleCatalog
      in \<lparr> pub_id_user = id_user u, pub_email = email u, pub_roles = roles u,
           pub_permissions = perms, pub_mfaEnabled = (mfaEnabled u = Some True),
           pub_createdAt = createdAt u, pub_updatedAt = updatedAt u \<rparr>)"

text \<open>
  Strings are taken over ASCII: \<open>trim\<close> removes the ASCII white space (tab, line
  feed, vertical tab, form feed, carriage return, space) at both ends and
  \<open>toLowerCase\<close> maps \<open>A\<close>--\<open>Z\<close> to \<open>a\<close>--\<open>z\<close>.
\<close>

definition isSpace :: "char \<Rightarrow> bool" where
  "isSpace c = (c \<in> set [CHR 0x09, CHR 0x0A, CHR 0x0B, CHR 0x0C, CHR 0x0D, CHR '' ''])"

definition trim :: "string \<Rightarrow> string" where
  "trim s = rev (dropWhile isSpace (rev (dropWhile isSpace s)))"

definition toLowerChar :: "char \<Rightarrow> char" where
  "toLowerChar c =
     (let n = (of_char c :: nat) in if 65 \<le> n \<and> n \<le> 90 then char_of (n + 32) else c)"

definition toLowerCase :: "string \<Rightarrow> string" where
  "toLowerCase s = map toLowerChar s"

definition normalizeEmail :: "string \<Rightarrow> string" where
  "normalizeEmail e = toLowerCase (trim e)"

text \<open>
  \<open>isValidEmail\<close> tests the regular expression \<open>^[^\s@]+@[^\s@]+\.[^\s@]+$\<close> on
  the normalized address. A string matches exactly when it has no white space and
  a single \<open>@\<close>, with a non-empty part before it and, after it, a dot that is
  neither the first nor the last character of that part.
\<close>

definition isValidEmail :: "string \<Rightarrow> bool" where
  "isValidEmail e =
     (let s = normalizeEmail e in
      list_all (\<lambda>c. \<not> isSpace c) s \<and>
      (case split CHR ''@'' s of
         [a, b] \<Rightarrow> a \<noteq> [] \<and> CHR ''.'' \<in> set (butlast (tl b))
       | _ \<Rightarrow> False))"

text \<open>The characters that the class \<open>[^\s@]\<close> of the regular expression matches.\<close>

definition plainChar :: "char \<Rightarrow> bool" where
  "plainChar c = (\<not> isSpace c \<and> c \<noteq> CHR ''@'')"

text \<open>
  \<open>touchUpdated\<close> is only ever called with its default \<open>when = new Date()\<close>, the
  current time, on which \<open>toISOString\<close> does not throw.
\<close>

definition touchUpdated :: "User \<Rightarrow> int \<Rightarrow> User" where
  "touchUpdated u when = u\<lparr> updatedAt := when \<rparr>"

section \<open>Collaborators and stored state\<close>

text \<open>
  What one call of the service reads from outside the program: the system clock
  (\<open>clock k\<close> is the value of the \<open>k\<close>-th reading made during the call, counted
  from 0), bcrypt, the TOTP library, \<open>randomUUID\<close> and the environment variables.
  \<open>bcrypt_hash\<close> is \<open>bcrypt.hash\<close> with the salt drawn for this call;
  \<open>bcrypt_getRounds\<close> is \<open>None\<close> where \<open>bcrypt.getRounds\<close> throws.
\<close>

record env =
  clock :: "nat \<Rightarrow> int"
  bcrypt_compare :: "string \<Rightarrow> string \<Rightarrow> bool"
  bcrypt_hash :: "string \<Rightarrow> string"
  bcrypt_getRounds :: "string \<Rightarrow> int option"
  SALT_ROUNDS :: int
  totp_verify :: "string \<Rightarrow> string \<Rightarrow> bool"
  totp_generateSecret :: string
  totp_keyuri :: "string \<Rightarrow> string \<Rightarrow> string \<Rightarrow> string"
  randomUUID :: string
  DEFAULT_TTL_MIN :: number

text \<open>
  The calls made to the collaborators and the writes made to the files, in the
  order in which they happen.
\<close>

datatype event =
    BcryptCompare string string
  | BcryptHash string
  | TotpVerify string string
  | TotpGenerateSecret
  | WriteUsers
  | WriteSessions
  | AppendSession

text \<open>
  The files \<open>data/users.txt\<close> and \<open>data/sessions.txt\<close> hold one JSON record per
  line; the state keeps the records that the repositories read from them, in file
  order, and the log of events.
\<close>

record world =
  users :: "User list"
  sessions :: "Session list"
  events :: "event list"

definition emit :: "event \<Rightarrow> world \<Rightarrow> world" where
  "emit e w = w\<lparr> events := events w @ [e] \<rparr>"

section \<open>Repositories (src/storage)\<close>

definition getUserById :: "User list \<Rightarrow> string \<Rightarrow> User option" where
  "getUserById us uid = find (\<lambda>u. id_user u = uid) us"

definition getUserByEmail :: "User list \<Rightarrow> string \<Rightarrow> User option" where
  "getUserByEmail us e =
     (let target = normalizeEmail e in
      if \<not> isValidEmail target then None
      else find (\<lambda>u. normalizeEmail (email u) = target) us)"

text \<open>
  \<open>updateUser\<close> rewrites the file with every record of the given id replaced; it
  throws when no record has that id, before writing. The result is the error
  thrown, if any, and the state afterwards.
\<close>

definition updateUser :: "User \<Rightarrow> world \<Rightarrow> error option \<times> world" where
  "updateUser updated w =
     (if list_ex (\<lambda>u. id_user u = id_user updated) (users w)
      then (None,
            emit WriteUsers
              (w\<lparr> users := map (\<lambda>u. if id_user u = id_user updated then updated else u)
                               (users w) \<rparr>))
      else (Some (Error ''USER_NOT_FOUND''), w))"

definition getSessionById :: "Session list \<Rightarrow> string \<Rightarrow> Session option" where
  "getSessionById ss sid = find (\<lambda>s. id_session s = sid) ss"

definition appendSession :: "Session \<Rightarrow> world \<Rightarrow> world" where
  "appendSession session w = emit AppendSession (w\<lparr> sessions := sessions w @ [session] \<rparr>)"

definition updateSession :: "Session \<Rightarrow> world \<Rightarrow> error option \<times> world" where
  "updateSession updated w =
     (if list_ex (\<lambda>s. id_session s = id_session updated) (sessions w)
      then (None,
            emit WriteSessions
              (w\<lparr> sessions := map (\<lambda>s. if id_session s = id_session updated then updated else s)
                                  (sessions w) \<rparr>))
      else (Some (Error ''SESSION_NOT_FOUND''), w))"

section \<open>Password service (src/services/password.service.ts)\<close>

definition verifyPassword :: "env \<Rightarrow> string \<Rightarrow> string \<Rightarrow> world \<Rightarrow> bool \<times> world" where
  "verifyPassword env plain hash w =
     (bcrypt_compare env plain hash, emit (BcryptCompare plain hash) w)"

definition hashPassword :: "env \<Rightarrow> string \<Rightarrow> world \<Rightarrow> string \<times> world" where
  "hashPassword env plain w = (bcrypt_hash env plain, emit (BcryptHash plain) w)"

definition needsRehash :: "env \<Rightarrow> string \<Rightarrow> bool" where
  "needsRehash env hash =
     (case bcrypt_getRounds env hash of
        Some rounds \<Rightarrow> rounds < SALT_ROUNDS env
      | None \<Rightarrow> True)"

section \<open>Authentication service (src/services/auth.service.ts)\<close>

definition MAX_FAILED :: int where
  "MAX_FAILED = 5"

definition LOCK_MINUTES :: int where
  "LOCK_MINUTES = 15"

text \<open>
  \<open>verifyTotp\<close>: without a stored secret the library is not called.
\<close>

definition verifyTotp :: "env \<Rightarrow> User \<Rightarrow> string \<Rightarrow> world \<Rightarrow> bool \<times> world" where
  "verifyTotp env user code w =
     (case mfaSecret user of
        None \<Rightarrow> (False, w)
      | Some secret \<Rightarrow>
          if secret = [] then (False, w)
          else (totp_verify env code secret, emit (TotpVerify code secret) w))"

text \<open>
  \<open>bumpFailed\<close>. \<open>readings k\<close> is the \<open>k\<close>-th reading of the clock that the
  function makes, counted from 0. It reads the clock in \<open>Date.now()\<close> only inside
  \<open>if (fails >= MAX_FAILED)\<close>, and then once more in \<open>touchUpdated\<close>; below the
  threshold \<open>touchUpdated\<close> makes its first and only reading. \<open>Date.now()\<close> is
  the current time, from which 15 minutes do not lead out of the range of dates,
  so that \<open>until.getTime()\<close> is the sum.
\<close>

definition bumpFailed :: "(nat \<Rightarrow> int) \<Rightarrow> User \<Rightarrow> world \<Rightarrow> error option \<times> world" where
  "bumpFailed readings user w =
     (let fails = (case failedLoginAttempts user of None \<Rightarrow> 0 | Some n \<Rightarrow> n) + 1;
          user1 = user\<lparr> failedLoginAttempts := Some fails \<rparr>
      in if fails \<ge> MAX_FAILED
         then updateUser
                (touchUpdated (user1\<lparr> lockedUntil := Some (readings 0 + LOCK_MINUTES * 60000) \<rparr>)
                   (readings 1)) w
         else updateUser (touchUpdated user1 (readings 0)) w)"

text \<open>
  \<open>loginUser\<close>. The lockout test \<open>user.lockedUntil && user.lockedUntil > 0 &&
  user.lockedUntil > now.getTime()\<close> is false on \<open>undefined\<close> and on 0. The clock
  is read at the lockout check (reading 0); a failing path then reads it in
  \<open>bumpFailed\<close> (from reading 1 on), the successful path in \<open>touchUpdated\<close>
  (reading 1), \<open>createSession\<close> (reading 2) and \<open>toPublicSession\<close> (reading 3).
\<close>

definition loginUser ::
  "env \<Rightarrow> string \<Rightarrow> string \<Rightarrow> string option \<Rightarrow> number option \<Rightarrow> string option \<Rightarrow> string option
     \<Rightarrow> world \<Rightarrow> (error + PublicSession \<times> PublicUser) \<times> world" where
  "loginUser env email_in password otpCode ttlMinutes ip ua w =
     (case getUserByEmail (users w) (normalizeEmail email_in) of
        None \<Rightarrow> (Inl (AuthError USER_NOT_FOUND), w)
      | Some user \<Rightarrow>
          let now = clock env 0 in
          if (case lockedUntil user of None \<Rightarrow> False | Some l \<Rightarrow> l \<noteq> 0 \<and> l > 0 \<and> l > now)
          then (Inl (AuthError ACCOUNT_LOCKED), w)
          else
            (case verifyPassword env password (passHash user) w of (ok, w1) \<Rightarrow>
               if \<not> ok then
                 (case bumpFailed (\<lambda>k. clock env (k + 1)) user w1 of
                    (Some e, w2) \<Rightarrow> (Inl e, w2)
                  | (None, w2) \<Rightarrow> (Inl (AuthError INVALID_CREDENTIALS), w2))
               else
                 (case (if needsRehash env (passHash user)
                        then (case hashPassword env password w1 of
                                (h, w2) \<Rightarrow> (user\<lparr> passHash := h \<rparr>, w2))
                        else (user, w1)) of (user1, w2) \<Rightarrow>
                    if mfaEnabled user1 = Some True \<and> \<not> truthy otpCode
                    then (Inl (AuthError MFA_REQUIRED), w2)
                    else
                      (case (if mfaEnabled user1 = Some True
                             then verifyTotp env user1 (the otpCode) w2
                             else (True, w2)) of (mfaOk, w3) \<Rightarrow>
                         if \<not> mfaOk then
                           (case bumpFailed (\<lambda>k. clock env (k + 1)) user1 w3 of
                              (Some e, w4) \<Rightarrow> (Inl e, w4)
                            | (None, w4) \<Rightarrow> (Inl (AuthError MFA_INVALID), w4))
                         else
                           (let user2 = touchUpdated
                                  (user1\<lparr> failedLoginAttempts := Some 0, lockedUntil := Some 0 \<rparr>)
                                  (clock env 1)
                            in case updateUser user2 w3 of
                                 (Some e, w4) \<Rightarrow> (Inl e, w4)
                               | (None, w4) \<Rightarrow>
                                   (case createSession (randomUUID env) (id_user user2)
                                           (Some (case ttlMinutes of
                                                    None \<Rightarrow> DEFAULT_TTL_MIN env
                                                  | Some m \<Rightarrow> m))
                                           (clock env 2) ip ua of
                                      Inl e \<Rightarrow> (Inl e, w4)
                                    | Inr session \<Rightarrow>
                                        (Inr (toPublicSession session (clock env 3),
                                              toPublicUser user2 None),
                                         appendSession session w4)))))))"

text \<open>
  \<open>logoutSession\<close> reads the clock in \<open>isActive\<close> (reading 0), in
  \<open>revokeSession\<close> (reading 1) and in \<open>toPublicSession\<close> (reading 2).
\<close>

definition logoutSession :: "env \<Rightarrow> string \<Rightarrow> world \<Rightarrow> (error + PublicSession) \<times> world" where
  "logoutSession env sessionId w =
     (case getSessionById (sessions w) sessionId of
        None \<Rightarrow> (Inl (AuthError SESSION_NOT_FOUND), w)
      | Some s \<Rightarrow>
          if \<not> isActive s (clock env 0) then (Inl (AuthError SESSION_INACTIVE), w)
          else
            (case revokeSession s (clock env 1) of
               Inl e \<Rightarrow> (Inl e, w)
             | Inr s1 \<Rightarrow>
                 (case updateSession s1 w of
                    (Some e, w1) \<Rightarrow> (Inl e, w1)
                  | (None, w1) \<Rightarrow> (Inr (toPublicSession s1 (clock env 2)), w1))))"

text \<open>
  \<open>setupMfa\<close>; \<open>issuer\<close> is \<open>None\<close> where the argument is omitted and the
  default \<open>AuthCLI\<close> applies.
\<close>

definition setupMfa ::
  "env \<Rightarrow> string \<Rightarrow> string option \<Rightarrow> world \<Rightarrow> (error + string \<times> string) \<times> world" where
  "setupMfa env uid issuer w =
     (case getUserById (users w) uid of
        None \<Rightarrow> (Inl (AuthError USER_NOT_FOUND), w)
      | Some user \<Rightarrow>
          (let iss = (case issuer of None \<Rightarrow> ''AuthCLI'' | Some i \<Rightarrow> i);
               secret = totp_generateSecret env;
               w1 = emit TotpGenerateSecret w;
               otpauth = totp_keyuri env (email user) iss secret;
               user1 = touchUpdated (user\<lparr> mfaSecret := Some secret, mfaEnabled := Some False \<rparr>)
                         (clock env 0)
           in case updateUser user1 w1 of
                (Some e, w2) \<Rightarrow> (Inl e, w2)
              | (None, w2) \<Rightarrow> (Inr (secret, otpauth), w2)))"

definition verifyMfa :: "env \<Rightarrow> string \<Rightarrow> string \<Rightarrow> world \<Rightarrow> (error + bool) \<times> world" where
  "verifyMfa env uid code w =
     (case getUserById (users w) uid of
        None \<Rightarrow> (Inl (AuthError USER_NOT_FOUND), w)
      | Some user \<Rightarrow>
          if \<not> truthy (mfaSecret user) then (Inl (AuthError MFA_NOT_ENABLED), w)
          else
            (let ok = totp_verify env code (the (mfaSecret user));
                 w1 = emit (TotpVerify code (the (mfaSecret user))) w
             in if ok then
                  (case updateUser (touchUpdated (user\<lparr> mfaEnabled := Some True \<rparr>) (clock env 0)) w1 of
                     (Some e, w2) \<Rightarrow> (Inl e, w2)
                   | (None, w2) \<Rightarrow> (Inr ok, w2))
                else (Inr ok, w1)))"

section \<open>Specification of role resolution\<close>

text \<open>
  The permissions one role name contributes, in the words of the specification:
  those of the catalog entry of exactly that name; failing that, those of the
  built-in preset of that name; failing that, none.
\<close>

definition spec_resolveRole :: "Role list \<Rightarrow> string \<Rightarrow> Permission list" where
  "spec_resolveRole roleCatalog rName =
     (case find (\<lambda>r. name r = rName) roleCatalog of
        Some r \<Rightarrow> permissions r
      | None \<Rightarrow> (case ROLE_PRESETS rName of Some ps \<Rightarrow> ps | None \<Rightarrow> []))"

section \<open>Specification of a failed attempt\<close>

text \<open>
  The rule of the specification for a failed credential or MFA check at time
  \<open>now\<close>: the counter of failed attempts (0 when absent) goes up by one, and when
  it has reached 5 the account is locked until \<open>now\<close> plus 15 minutes.
\<close>

definition spec_failedAttempt :: "int \<Rightarrow> User \<Rightarrow> User" where
  "spec_failedAttempt now u =
     (let n = (case failedLoginAttempts u of None \<Rightarrow> 0 | Some k \<Rightarrow> k) + 1
      in u\<lparr> failedLoginAttempts := Some n,
            lockedUntil := (if 5 \<le> n then Some (now + 15 * 60 * 1000) else lockedUntil u) \<rparr>)"

text \<open>The counter as \<open>bumpFailed\<close> reads it: \<open>user.failedLoginAttempts ?? 0\<close>.\<close>

definition failedCount :: "User \<Rightarrow> int" where
  "failedCount u = (case failedLoginAttempts u of None \<Rightarrow> 0 | Some k \<Rightarrow> k)"

text \<open>
  A run of login attempts for one address, each with its own environment, password
  and code, on the state left by the previous one; the results are collected.
\<close>

fun loginAttempts ::
  "string \<Rightarrow> (env \<times> string \<times> string option) list \<Rightarrow> world
     \<Rightarrow> (error + PublicSession \<times> PublicUser) list \<times> world" where
  "loginAttempts email_in [] w = ([], w)"
| "loginAttempts email_in ((env, password, otpCode) # rest) w =
     (case loginUser env email_in password otpCode None None None w of
        (r, w1) \<Rightarrow>
          (case loginAttempts email_in rest w1 of
             (rs, w2) \<Rightarrow> (r # rs, w2)))"

section \<open>Example data\<close>

text \<open>
  A concrete environment, user and state on which the theorems below are
  instantiated: bcrypt is replaced by a prefix, the TOTP library accepts the code
  \<open>123456\<close>, and readings of the clock are one millisecond apart.
\<close>

definition env0 :: env where
  "env0 = \<lparr> clock = (\<lambda>k. 1700000000000 + int k),
            bcrypt_compare = (\<lambda>plain hash. hash = ''h:'' @ plain),
            bcrypt_hash = (\<lambda>plain. ''h:'' @ plain),
            bcrypt_getRounds = (\<lambda>hash. Some 10),
            SALT_ROUNDS = 10,
            totp_verify = (\<lambda>tok secret. tok = ''123456''),
            totp_generateSecret = ''JBSWY3DP'',
            totp_keyuri = (\<lambda>account iss secret. iss @ '':'' @ account @ ''?secret='' @ secret),
            randomUUID = ''s-9'',
            DEFAULT_TTL_MIN = Finite 60 \<rparr>"

definition alice :: User where
  "alice = \<lparr> id_user = ''u-1'', email = ''alice@example.com'', passHash = ''h:S3gura!2024'',
             salt = None, roles = [''user''], extraPermissions = [],
             mfaEnabled = Some False, mfaSecret = None, recoveryCodes = None,
             failedLoginAttempts = Some 0, lockedUntil = Some 0,
             createdAt = 1690000000000, updatedAt = 1690000000000 \<rparr>"

definition bob :: User where
  "bob = \<lparr> id_user = ''u-2'', email = ''bob@example.com'', passHash = ''h:Passw0rd!'',
           salt = None, roles = [''support'', ''auditor''], extraPermissions = [''audit:read''],
           mfaEnabled = Some True, mfaSecret = Some ''KRSXG5A='', recoveryCodes = None,
           failedLoginAttempts = Some 4, lockedUntil = Some 0,
           createdAt = 1690000000000, updatedAt = 1690000000000 \<rparr>"

definition session0 :: Session where
  "session0 = \<lparr> id_session = ''s-1'', userId = ''u-1'', issuedAt = 1699999000000,
                expiresAt = 1700002600000, lastUsedAt = 1699999000000, revokedAt = None,
                ipHash = None, userAgent = Some ''auth-cli'' \<rparr>"

definition session1 :: Session where
  "session1 = \<lparr> id_session = ''s-2'', userId = ''u-2'', issuedAt = 1699999000000,
                expiresAt = 1700002600000, lastUsedAt = 1699999000000,
                revokedAt = Some 1699999500000, ipHash = None, userAgent = None \<rparr>"

definition carol :: User where
  "carol = \<lparr> id_user = ''u-3'', email = ''Carol@Example.com'', passHash = ''h:C4rol#pw'',
             salt = None, roles = [''admin''], extraPermissions = [],
             mfaEnabled = Some True, mfaSecret = Some ''MNQXE33M'', recoveryCodes = None,
             failedLoginAttempts = None, lockedUntil = None,
             createdAt = 1690000000000, updatedAt = 1690000000000 \<rparr>"

definition world0 :: world where
  "world0 = \<lparr> users = [alice, bob, carol], sessions = [session0, session1], events = [] \<rparr>"

text \<open>The environment \<open>env0\<close> with the clock started at \<open>t\<close>.\<close>

definition envAt :: "int \<Rightarrow> env" where
  "envAt t = env0\<lparr> clock := (\<lambda>k. t + int k) \<rparr>"

text \<open>
  Five attempts on Carol's account, one minute apart: wrong passwords mixed with
  right passwords followed by a wrong code.
\<close>

definition attempts5 :: "(env \<times> string \<times> string option) list" where
  "attempts5 =
     [(envAt 1700000000000, ''guess1'', None),
      (envAt 1700000060000, ''C4rol#pw'', Some ''000000''),
      (envAt 1700000120000, ''guess2'', Some ''123456''),
      (envAt 1700000180000, ''C4rol#pw'', Some ''999999''),
      (envAt 1700000240000, ''guess3'', None)]"

text \<open>
  A catalog with one custom role, and a user who holds that role, a preset and a
  role that is neither.
\<close>

definition catalog0 :: "Role list" where
  "catalog0 = [\<lparr> name = ''auditor'',
                permissions = [''session:*'', ''audit:*'', ''audit:read'', ''user:list'', ''nonsense''],
                description = Some ''reads the audit trail'' \<rparr>]"

definition dave :: User where
  "dave = bob\<lparr> id_user := ''u-4'', email := ''dave@example.com'',
               roles := [''support'', ''auditor'', ''ghost''],
               extraPermissions := [''role:*'', ''user:read''] \<rparr>"

section \<open>Properties of the permission model\<close>

lemma split_not_Nil: "split c s \<noteq> []"
  by (induction s) (auto split: list.splits)











section \<open>Properties of normalizePermissions\<close>

lemma firsts_snoc: "firsts (xs @ [x]) = set_add (firsts xs) x"
  by (simp add: firsts_def set_add_def)

lemma collectValid_firsts:
  "collectValid (firsts acc) perms = firsts (acc @ filter isPermission perms)"
proof (induction perms arbitrary: acc)
  case Nil
  show ?case by simp
next
  case (Cons p perms)
  show ?case
  proof (cases "isPermission p")
    case True
    have "collectValid (firsts acc) (p # perms) = collectValid (firsts (acc @ [p])) perms"
      using True by (simp add: firsts_snoc)
    also have "\<dots> = firsts ((acc @ [p]) @ filter isPermission perms)"
      by (rule Cons.IH)
    finally show ?thesis using True by simp
  next
    case False
    then show ?thesis using Cons.IH[of acc] by simp
  qed
qed

lemma collectValid_Nil: "collectValid [] perms = firsts (filter isPermission perms)"
  using collectValid_firsts[of "[]" perms] by (simp add: firsts_def)

lemma set_firsts: "set (firsts xs) = set xs"
  by (simp add: firsts_def)

lemma distinct_firsts: "distinct (firsts xs)"
  by (simp add: firsts_def)

lemma firsts_distinct_id: "distinct xs \<Longrightarrow> firsts xs = xs"
  by (simp add: firsts_def distinct_remdups_id)

lemma filter_firsts: "filter P (firsts xs) = firsts (filter P xs)"
  by (simp add: firsts_def rev_filter remdups_filter)

lemma remdups_append_cong:
  "remdups ys = remdups zs \<Longrightarrow> remdups (xs @ ys) = remdups (xs @ zs)"
proof (induction xs)
  case Nil
  then show ?case by simp
next
  case (Cons x xs)
  from Cons.prems have "set ys = set zs" by (metis set_remdups)
  with Cons show ?case by simp
qed

lemma remdups_remdups_append: "remdups (remdups ys @ xs) = remdups (ys @ xs)"
  by (induction ys) auto

lemma firsts_append_firsts: "firsts (xs @ firsts ys @ zs) = firsts (xs @ ys @ zs)"
proof -
  have "remdups (rev zs @ remdups (rev ys) @ rev xs) = remdups (rev zs @ rev ys @ rev xs)"
    by (rule remdups_append_cong) (simp only: remdups_remdups_append remdups_remdups)
  then show ?thesis
    by (simp add: firsts_def)
qed

lemma normalizePermissions_firsts:
  "normalizePermissions perms = sort_key sortKey (firsts (filter isPermission perms))"
  by (simp add: normalizePermissions_def collectValid_Nil)

lemma set_normalizePermissions:
  "set (normalizePermissions perms) = {p \<in> set perms. isPermission p}"
  by (auto simp: normalizePermissions_firsts set_firsts)

lemma distinct_normalizePermissions: "distinct (normalizePermissions perms)"
  by (simp add: normalizePermissions_firsts distinct_firsts)

lemma sorted_normalizePermissions: "sorted (map sortKey (normalizePermissions perms))"
  by (simp add: normalizePermissions_firsts)

lemma normalizePermissions_idem:
  "normalizePermissions (normalizePermissions perms) = normalizePermissions perms"
proof -
  let ?n = "normalizePermissions perms"
  have "filter isPermission ?n = ?n"
    by (rule filter_True) (simp add: set_normalizePermissions)
  moreover have "firsts ?n = ?n"
    by (rule firsts_distinct_id) (rule distinct_normalizePermissions)
  moreover have "sort_key sortKey ?n = ?n"
    by (rule sort_key_id_if_sorted) (rule sorted_normalizePermissions)
  ultimately show ?thesis
    by (simp add: normalizePermissions_firsts[of ?n])
qed

lemma filter_key_normalizePermissions:
  "filter (\<lambda>x. sortKey x = c) (normalizePermissions perms)
     = firsts (filter (\<lambda>x. sortKey x = c) (filter isPermission perms))"
  by (simp only: normalizePermissions_firsts sort_key_stable filter_firsts)

lemma sort_key_cong_stable:
  fixes f :: "'a \<Rightarrow> int"
  assumes "mset xs = mset ys"
    and "\<And>c. filter (\<lambda>x. f x = c) xs = filter (\<lambda>x. f x = c) ys"
  shows "sort_key f xs = sort_key f ys"
proof (rule properties_for_sort_key)
  show "mset (sort_key f ys) = mset xs" using assms(1) by simp
  show "sorted (map f (sort_key f ys))" by simp
  fix k
  have "filter (\<lambda>x. f k = f x) (sort_key f ys) = filter (\<lambda>x. f x = f k) (sort_key f ys)"
    by (rule filter_cong) auto
  also have "\<dots> = filter (\<lambda>x. f x = f k) ys" by (rule sort_key_stable)
  also have "\<dots> = filter (\<lambda>x. f x = f k) xs" by (rule assms(2)[symmetric])
  also have "\<dots> = filter (\<lambda>x. f k = f x) xs" by (rule filter_cong) auto
  finally show "filter (\<lambda>x. f k = f x) (sort_key f ys) = filter (\<lambda>x. f k = f x) xs" .
qed

lemma normalizePermissions_absorb:
  "normalizePermissions (xs @ normalizePermissions ys @ zs) = normalizePermissions (xs @ ys @ zs)"
proof -
  let ?l = "firsts (filter isPermission (xs @ normalizePermissions ys @ zs))"
  let ?r = "firsts (filter isPermission (xs @ ys @ zs))"
  have fn: "filter isPermission (normalizePermissions ys) = normalizePermissions ys"
    by (rule filter_True) (simp add: set_normalizePermissions)
  have "set ?l = set ?r"
    by (auto simp: set_firsts set_normalizePermissions)
  then have m: "mset ?l = mset ?r"
    by (simp only: set_eq_iff_mset_eq_distinct[OF distinct_firsts distinct_firsts])
  have f: "filter (\<lambda>x. sortKey x = c) ?l = filter (\<lambda>x. sortKey x = c) ?r" for c
  proof -
    let ?Q = "\<lambda>x. sortKey x = c"
    let ?F = "\<lambda>l. filter ?Q (filter isPermission l)"
    have "filter ?Q ?l = firsts (?F xs @ filter ?Q (normalizePermissions ys) @ ?F zs)"
      by (simp only: filter_firsts filter_append fn)
    also have "\<dots> = firsts (?F xs @ firsts (?F ys) @ ?F zs)"
      by (simp only: filter_key_normalizePermissions)
    also have "\<dots> = firsts (?F xs @ ?F ys @ ?F zs)"
      by (rule firsts_append_firsts)
    also have "\<dots> = filter ?Q ?r"
      by (simp only: filter_firsts filter_append)
    finally show ?thesis .
  qed
  have "sort_key sortKey ?l = sort_key sortKey ?r"
    by (rule sort_key_cong_stable[OF m f])
  then show ?thesis
    by (simp only: normalizePermissions_firsts[of "xs @ normalizePermissions ys @ zs"]
        normalizePermissions_firsts[of "xs @ ys @ zs"])
qed

text \<open>
  Claim C7 says that the output does not depend on the order of the input. Every
  wildcard has the same sort key \<open>MAX_SAFE_INTEGER\<close>, and the stable sort keeps
  elements of equal key in insertion order, so two wildcards come out in the order
  in which they came in: the first two lists below have the same elements and
  different normal forms. The third shows what the filter lets through:
  \<open>isPermission\<close> reads only the first two pieces of a string, so a catalog
  permission followed by a further \<open>:\<close>-separated piece is kept.
\<close>

theorem normalizePermissions_wildcard_order:
  "normalizePermissions [''user:*'', ''role:*''] = [''user:*'', ''role:*'']
   \<and> normalizePermissions [''role:*'', ''user:*''] = [''role:*'', ''user:*'']
   \<and> normalizePermissions [''user:read:extra'', ''user:read''] = [''user:read'', ''user:read:extra'']"
  by code_simp

section \<open>Properties of sessions\<close>

lemma toIntegerOrInfinity_of_int: "toIntegerOrInfinity (of_int k) = k"
  by (simp add: toIntegerOrInfinity_def)

lemma toIntegerOrInfinity_bounds:
  assumes "\<bar>v\<bar> \<le> of_int m"
  shows "- m \<le> toIntegerOrInfinity v \<and> toIntegerOrInfinity v \<le> m"
proof (cases "0 \<le> v")
  case True
  then have "0 \<le> \<lfloor>v\<rfloor>" by simp
  moreover have "\<lfloor>v\<rfloor> \<le> m" using assms True by (simp add: floor_le_iff)
  moreover have "toIntegerOrInfinity v = \<lfloor>v\<rfloor>"
    using True by (simp add: toIntegerOrInfinity_def)
  ultimately show ?thesis by linarith
next
  case False
  then have "\<lceil>v\<rceil> \<le> 0" by (simp add: ceiling_le_iff)
  moreover have "- m \<le> \<lceil>v\<rceil>" using assms False by (simp add: le_ceiling_iff abs_le_iff)
  moreover have "toIntegerOrInfinity v = \<lceil>v\<rceil>"
    using False by (simp add: toIntegerOrInfinity_def)
  ultimately show ?thesis by linarith
qed

lemma validDate_newDate:
  "validDate (newDate v) \<longleftrightarrow> (\<exists>q. v = Finite q \<and> \<bar>q\<bar> \<le> of_int MAX_TIME)"
proof (cases v)
  case (Finite q)
  show ?thesis
  proof (cases "\<bar>q\<bar> \<le> of_int MAX_TIME")
    case True
    from toIntegerOrInfinity_bounds[OF True] True show ?thesis
      by (simp add: Finite newDate_def validDate_def)
  next
    case False
    then show ?thesis
      by (simp add: Finite newDate_def validDate_def INVALID_DATE_def)
  qed
next
  case NotFinite
  then show ?thesis
    by (simp add: newDate_def validDate_def INVALID_DATE_def)
qed



lemma createSession_defined:
  assumes "validDate now"
    and "(case ttl of None \<Rightarrow> Finite 60 | Some x \<Rightarrow> x) = Finite m"
    and "\<bar>of_int now + m * 60000\<bar> \<le> of_int MAX_TIME"
  shows "createSession sid uid ttl now ip ua =
     Inr \<lparr> id_session = sid, userId = uid, issuedAt = now,
           expiresAt = toIntegerOrInfinity (of_int now + m * 60000),
           lastUsedAt = now, revokedAt = None, ipHash = ip, userAgent = ua \<rparr>"
proof -
  let ?v = "add (Finite (of_int now))
              (mul (case ttl of None \<Rightarrow> Finite 60 | Some x \<Rightarrow> x) (Finite 60000))"
  have v: "?v = Finite (of_int now + m * 60000)"
    by (simp add: assms(2))
  have "validDate (newDate ?v)"
    unfolding v validDate_newDate using assms(3) by simp
  moreover have "newDate ?v = toIntegerOrInfinity (of_int now + m * 60000)"
    unfolding v using assms(3) by (simp add: newDate_def)
  ultimately show ?thesis
    using assms(1) by (simp add: createSession_def toISOString_def)
qed


text \<open>A whole number of minutes: no truncation takes place.\<close>

lemma createSession_whole:
  assumes "validDate now" and "validDate (now + m * 60000)"
  shows "createSession sid uid (Some (Finite (of_int m))) now ip ua =
     Inr \<lparr> id_session = sid, userId = uid, issuedAt = now, expiresAt = now + m * 60000,
           lastUsedAt = now, revokedAt = None, ipHash = ip, userAgent = ua \<rparr>"
proof -
  have e: "(of_int now + of_int m * 60000 :: rat) = of_int (now + m * 60000)" by simp
  have "\<bar>of_int (now + m * 60000) :: rat\<bar> \<le> of_int MAX_TIME"
    using assms(2) unfolding validDate_def by (simp only: abs_le_iff) (simp flip: of_int_minus)
  then have b: "\<bar>of_int now + of_int m * 60000 :: rat\<bar> \<le> of_int MAX_TIME"
    by (simp only: e)
  have t: "(case Some (Finite (of_int m)) of None \<Rightarrow> Finite 60 | Some x \<Rightarrow> x) = Finite (of_int m)"
    by simp
  show ?thesis
    using createSession_defined[OF assms(1) t b, of sid uid ip ua]
    by (simp only: e toIntegerOrInfinity_of_int)
qed

text \<open>
  Claim C5. At a valid time \<open>t\<close> a session is active exactly when \<open>revokedAt\<close> is
  unset and \<open>t\<close> is strictly before \<open>expiresAt\<close>. \<open>revokeSession\<close> at a valid
  time succeeds and sets \<open>revokedAt\<close>, after which the session is inactive at every
  time, whatever \<open>expiresAt\<close> is; a session with \<open>revokedAt\<close> set is inactive at
  every time, and both mutators of the module keep \<open>revokedAt\<close> set, so a revoked
  session stays inactive. A session created at a valid time \<open>T\<close> with a TTL of 30
  minutes is created without error, is active at \<open>T\<close> plus one minute and, where
  \<open>T\<close> plus 31 minutes is a valid time too, inactive then.
\<close>

theorem isActive_lifecycle:
  "(validDate t \<longrightarrow> (isActive s t \<longleftrightarrow> revokedAt s = None \<and> t < expiresAt s))
   \<and> (validDate w \<longrightarrow>
         revokeSession s w = Inr (s\<lparr> revokedAt := Some w \<rparr>)
         \<and> \<not> isActive (projr (revokeSession s w)) t')
   \<and> (revokedAt s \<noteq> None \<longrightarrow> \<not> isActive s t')
   \<and> (revokedAt s \<noteq> None \<and> validDate w \<longrightarrow>
         revokedAt (projr (revokeSession s w)) \<noteq> None
         \<and> touchSession s w = Inr (s\<lparr> lastUsedAt := w \<rparr>)
         \<and> revokedAt (projr (touchSession s w)) \<noteq> None
         \<and> \<not> isActive (projr (touchSession s w)) t')
   \<and> (validDate T \<and> validDate (T + 31 * 60000) \<longrightarrow>
         \<not> isl (createSession sid uid (Some (Finite 30)) T ip ua)
         \<and> isActive (projr (createSession sid uid (Some (Finite 30)) T ip ua)) (T + 1 * 60000)
         \<and> \<not> isActive (projr (createSession sid uid (Some (Finite 30)) T ip ua))
               (T + 31 * 60000))"
proof (intro conjI impI)
  assume "validDate t"
  then show "isActive s t \<longleftrightarrow> revokedAt s = None \<and> t < expiresAt s"
    by (auto simp: isActive_def isExpired_def)
next
  assume "validDate w"
  then show "revokeSession s w = Inr (s\<lparr> revokedAt := Some w \<rparr>)"
    "\<not> isActive (projr (revokeSession s w)) t'"
    by (simp_all add: isActive_def revokeSession_def toISOString_def)
next
  assume "revokedAt s \<noteq> None"
  then show "\<not> isActive s t'" by (simp add: isActive_def)
next
  assume "revokedAt s \<noteq> None \<and> validDate w"
  then show "revokedAt (projr (revokeSession s w)) \<noteq> None"
    "touchSession s w = Inr (s\<lparr> lastUsedAt := w \<rparr>)"
    "revokedAt (projr (touchSession s w)) \<noteq> None"
    "\<not> isActive (projr (touchSession s w)) t'"
    by (simp_all add: isActive_def revokeSession_def touchSession_def toISOString_def)
next
  assume v: "validDate T \<and> validDate (T + 31 * 60000)"
  then have v30: "validDate (T + 30 * 60000)" and v1: "validDate (T + 1 * 60000)"
    by (simp_all add: validDate_def)
  have c: "createSession sid uid (Some (Finite 30)) T ip ua =
     Inr \<lparr> id_session = sid, userId = uid, issuedAt = T, expiresAt = T + 30 * 60000,
           lastUsedAt = T, revokedAt = None, ipHash = ip, userAgent = ua \<rparr>"
    using v v30 createSession_whole[of T 30 sid uid ip ua] by simp
  show "\<not> isl (createSession sid uid (Some (Finite 30)) T ip ua)"
    "isActive (projr (createSession sid uid (Some (Finite 30)) T ip ua)) (T + 1 * 60000)"
    "\<not> isActive (projr (createSession sid uid (Some (Finite 30)) T ip ua)) (T + 31 * 60000)"
    using v v1 by (simp_all add: c isActive_def isExpired_def)
qed

theorem isActive_lifecycle_witness:
  "validDate 1700000000000 \<and> isActive session0 1700000000000
   \<and> validDate 1699999600000
   \<and> revokeSession session0 1699999600000 = Inr (session0\<lparr> revokedAt := Some 1699999600000 \<rparr>)
   \<and> \<not> isActive (projr (revokeSession session0 1699999600000)) 1699999700000
   \<and> revokedAt session1 \<noteq> None
   \<and> \<not> isActive session1 1699999700000
   \<and> \<not> isActive (projr (touchSession session1 1699999600000)) 1699999700000
   \<and> validDate (1700000000000 + 31 * 60000)
   \<and> \<not> isl (createSession ''s-3'' ''u-1'' (Some (Finite 30)) 1700000000000 None None)
   \<and> isActive (projr (createSession ''s-3'' ''u-1'' (Some (Finite 30)) 1700000000000 None None))
        (1700000000000 + 1 * 60000)
   \<and> \<not> isActive (projr (createSession ''s-3'' ''u-1'' (Some (Finite 30)) 1700000000000 None None))
        (1700000000000 + 31 * 60000)"
proof -
  have r: "revokedAt session1 \<noteq> None" by (simp add: session1_def)
  have a: "revokedAt session0 = None \<and> (1700000000000 :: int) < expiresAt session0"
    by (simp add: session0_def)
  have vt: "validDate 1700000000000" and vw: "validDate 1699999600000"
    and v31: "validDate (1700000000000 + 31 * 60000)"
    by (simp_all add: validDate_def MAX_TIME_def)
  note i0 = isActive_lifecycle[of 1700000000000 session0 1699999600000 1699999700000
        1700000000000 "''s-3''" "''u-1''" None None]
  note i1 = isActive_lifecycle[of 1700000000000 session1 1699999600000 1699999700000
        1700000000000 "''s-3''" "''u-1''" None None]
  have c1: "isActive session0 1700000000000" using i0 vt a by blast
  have c2: "revokeSession session0 1699999600000 = Inr (session0\<lparr> revokedAt := Some 1699999600000 \<rparr>)"
    and c3: "\<not> isActive (projr (revokeSession session0 1699999600000)) 1699999700000"
    using i0 vw by blast+
  have c4: "\<not> isActive session1 1699999700000"
    and c5: "\<not> isActive (projr (touchSession session1 1699999600000)) 1699999700000"
    using i1 r vw by blast+
  have c6: "\<not> isl (createSession ''s-3'' ''u-1'' (Some (Finite 30)) 1700000000000 None None)"
    and c7: "isActive (projr (createSession ''s-3'' ''u-1'' (Some (Finite 30)) 1700000000000 None None))
        (1700000000000 + 1 * 60000)"
    and c8: "\<not> isActive (projr (createSession ''s-3'' ''u-1'' (Some (Finite 30)) 1700000000000 None None))
        (1700000000000 + 31 * 60000)"
    using i0 vt v31 by blast+
  from vt c1 vw c2 c3 r c4 c5 v31 c6 c7 c8 show ?thesis by blast
qed




section \<open>Properties of the e-mail check\<close>

lemma split_one: "split c s = [b] \<longleftrightarrow> s = b \<and> c \<notin> set b"
proof (induction s arbitrary: b)
  case Nil
  show ?case by auto
next
  case (Cons x s)
  show ?case
  proof (cases "x = c")
    case True
    then show ?thesis by (auto simp: split_not_Nil)
  next
    case False
    show ?thesis
    proof (cases b)
      case Nil
      with False show ?thesis by (simp split: list.splits)
    next
      case (Cons y b')
      with False Cons.IH[of b'] show ?thesis
        by (cases "split c s") (auto simp: split_not_Nil)
    qed
  qed
qed

lemma split_two:
  "split c s = [a, b] \<longleftrightarrow> s = a @ c # b \<and> c \<notin> set a \<and> c \<notin> set b"
proof (induction s arbitrary: a)
  case Nil
  show ?case by simp
next
  case (Cons x s)
  show ?case
  proof (cases "x = c")
    case True
    show ?thesis
    proof (cases a)
      case Nil
      with True show ?thesis by (simp add: split_one)
    next
      case (Cons y a')
      with True show ?thesis by auto
    qed
  next
    case False
    show ?thesis
    proof (cases a)
      case Nil
      with False show ?thesis
        by (simp split: list.splits)
    next
      case (Cons y a')
      with False Cons.IH[of a'] show ?thesis
        by (cases "split c s") (auto simp: split_not_Nil)
    qed
  qed
qed

lemma dot_inside:
  "CHR ''.'' \<in> set (butlast (tl b)) \<longleftrightarrow> (\<exists>x y. b = x @ ''.'' @ y \<and> x \<noteq> [] \<and> y \<noteq> [])"
proof
  assume "CHR ''.'' \<in> set (butlast (tl b))"
  then obtain p q where pq: "butlast (tl b) = p @ CHR ''.'' # q"
    by (auto simp: in_set_conv_decomp)
  then have tlne: "tl b \<noteq> []" by auto
  then have bne: "b \<noteq> []" by auto
  have "tl b = butlast (tl b) @ [last (tl b)]" using tlne by simp
  then have "tl b = p @ CHR ''.'' # q @ [last (tl b)]" using pq by simp
  moreover have "b = hd b # tl b" using bne by simp
  ultimately have "b = (hd b # p) @ ''.'' @ (q @ [last (tl b)])" by simp
  then show "\<exists>x y. b = x @ ''.'' @ y \<and> x \<noteq> [] \<and> y \<noteq> []" by blast
next
  assume "\<exists>x y. b = x @ ''.'' @ y \<and> x \<noteq> [] \<and> y \<noteq> []"
  then obtain x y where b: "b = x @ ''.'' @ y" and ne: "x \<noteq> []" "y \<noteq> []" by blast
  have "butlast (tl (x @ ''.'' @ y)) = tl x @ ''.'' @ butlast y"
    using ne by (simp add: butlast_append)
  then show "CHR ''.'' \<in> set (butlast (tl b))" by (simp add: b)
qed

text \<open>
  \<open>isValidEmail\<close> accepts exactly the strings whose normal form matches the
  regular expression of the source: a non-empty part, \<open>@\<close>, a non-empty part, a
  dot, a non-empty part, the three parts free of white space and \<open>@\<close>.
\<close>

lemma isValidEmail_regex:
  "isValidEmail e \<longleftrightarrow>
     (\<exists>a x y. normalizeEmail e = a @ ''@'' @ x @ ''.'' @ y
        \<and> a \<noteq> [] \<and> x \<noteq> [] \<and> y \<noteq> []
        \<and> list_all plainChar (a @ x @ y))"
  (is "?L \<longleftrightarrow> ?R")
proof
  assume ?R
  then obtain a x y where s: "normalizeEmail e = a @ ''@'' @ x @ ''.'' @ y"
    and ne: "a \<noteq> []" "x \<noteq> []" "y \<noteq> []"
    and pl: "list_all plainChar (a @ x @ y)"
    by blast
  have na: "CHR ''@'' \<notin> set a" and nb: "CHR ''@'' \<notin> set (x @ ''.'' @ y)"
    using pl by (auto simp: list_all_iff plainChar_def)
  have sp: "split CHR ''@'' (normalizeEmail e) = [a, x @ ''.'' @ y]"
    by (rule iffD2[OF split_two]) (use s na nb in simp)
  have dot: "CHR ''.'' \<in> set (butlast (tl (x @ ''.'' @ y)))"
    using ne by (simp only: dot_inside) blast
  have nosp: "list_all (\<lambda>c. \<not> isSpace c) (normalizeEmail e)"
    using pl by (auto simp: s list_all_iff plainChar_def isSpace_def)
  show ?L
    using dot nosp ne(1) by (simp add: isValidEmail_def Let_def sp)
next
  assume l: ?L
  let ?s = "normalizeEmail e"
  from l have nosp: "list_all (\<lambda>c. \<not> isSpace c) ?s"
    by (simp add: isValidEmail_def Let_def)
  from l obtain a b where sp: "split CHR ''@'' ?s = [a, b]" and ane: "a \<noteq> []"
    and dot: "CHR ''.'' \<in> set (butlast (tl b))"
    by (auto simp: isValidEmail_def Let_def split: list.splits)
  from sp have "?s = a @ CHR ''@'' # b \<and> CHR ''@'' \<notin> set a \<and> CHR ''@'' \<notin> set b"
    by (rule iffD1[OF split_two])
  then have s: "?s = a @ CHR ''@'' # b" and na: "CHR ''@'' \<notin> set a" and nb: "CHR ''@'' \<notin> set b"
    by blast+
  from dot obtain x y where b: "b = x @ ''.'' @ y" and ne: "x \<noteq> []" "y \<noteq> []"
    by (auto simp only: dot_inside)
  have "list_all plainChar (a @ x @ y)"
    using nosp na nb unfolding s b by (auto simp: list_all_iff plainChar_def)
  moreover have "?s = a @ ''@'' @ x @ ''.'' @ y" unfolding s b by simp
  ultimately show ?R using ane ne by blast
qed

section \<open>Properties of the repositories\<close>

lemma find_map_update:
  assumes "find P xs = Some u" and "P u'" and "f u = u'" and "\<And>x. f x = x \<or> f x = u'"
  shows "find P (map f xs) = Some u'"
  using assms(1)
proof (induction xs)
  case Nil
  then show ?case by simp
next
  case (Cons x xs)
  show ?case
  proof (cases "P x")
    case True
    with Cons.prems have "x = u" by simp
    then show ?thesis using assms(2,3) by simp
  next
    case False
    with Cons.prems have "find P xs = Some u" by simp
    then have ih: "find P (map f xs) = Some u'" by (rule Cons.IH)
    from assms(4)[of x] show ?thesis
    proof
      assume "f x = x"
      with False ih show ?thesis by simp
    next
      assume "f x = u'"
      with assms(2) show ?thesis by simp
    qed
  qed
qed

lemma find_Some_holds: "find P xs = Some u \<Longrightarrow> P u \<and> u \<in> set xs"
  by (induction xs) (auto split: if_splits)

lemma getUserById_id: "getUserById us uid = Some u \<Longrightarrow> id_user u = uid \<and> u \<in> set us"
  unfolding getUserById_def by (drule find_Some_holds) simp

lemma getUserByEmail_mem: "getUserByEmail us e = Some u \<Longrightarrow> u \<in> set us"
  unfolding getUserByEmail_def by (auto simp: Let_def split: if_splits dest: find_Some_holds)

lemma getSessionById_id:
  "getSessionById ss sid = Some s \<Longrightarrow> id_session s = sid \<and> s \<in> set ss"
  unfolding getSessionById_def by (drule find_Some_holds) simp

text \<open>Replacing the records of one id, as both \<open>update\<close> functions do.\<close>

lemma updateUser_present:
  "u \<in> set (users w) \<Longrightarrow> id_user u' = id_user u \<Longrightarrow>
   updateUser u' w =
     (None, w\<lparr> users := map (\<lambda>x. if id_user x = id_user u then u' else x) (users w),
               events := events w @ [WriteUsers] \<rparr>)"
  by (auto simp: updateUser_def emit_def list_ex_iff)

lemma updateSession_present:
  "s \<in> set (sessions w) \<Longrightarrow> id_session s' = id_session s \<Longrightarrow>
   updateSession s' w =
     (None, w\<lparr> sessions := map (\<lambda>x. if id_session x = id_session s then s' else x) (sessions w),
               events := events w @ [WriteSessions] \<rparr>)"
  by (auto simp: updateSession_def emit_def list_ex_iff)

lemma getUserById_after_update:
  assumes "getUserById us uid = Some u" and "id_user u' = uid"
  shows "getUserById (map (\<lambda>x. if id_user x = uid then u' else x) us) uid = Some u'"
  unfolding getUserById_def
proof (rule find_map_update)
  show "find (\<lambda>u. id_user u = uid) us = Some u" using assms(1) by (simp add: getUserById_def)
  show "id_user u' = uid" by (rule assms(2))
  show "(if id_user u = uid then u' else u) = u'" using getUserById_id[OF assms(1)] by simp
  show "\<And>x. (if id_user x = uid then u' else x) = x \<or> (if id_user x = uid then u' else x) = u'"
    by simp
qed

lemma getUserByEmail_after_update:
  assumes "getUserByEmail us e = Some u" and "email u' = email u"
  shows "getUserByEmail (map (\<lambda>x. if id_user x = id_user u then u' else x) us) e = Some u'"
proof -
  let ?P = "\<lambda>x. normalizeEmail (email x) = normalizeEmail e"
  from assms(1) have v: "isValidEmail (normalizeEmail e)" and f: "find ?P us = Some u"
    by (auto simp: getUserByEmail_def Let_def split: if_splits)
  from find_Some_holds[OF f] have "?P u" by simp
  then have "?P u'" using assms(2) by simp
  then have "find ?P (map (\<lambda>x. if id_user x = id_user u then u' else x) us) = Some u'"
    by (intro find_map_update[OF f]) simp_all
  with v show ?thesis by (simp add: getUserByEmail_def Let_def)
qed

lemma getSessionById_after_update:
  assumes "getSessionById ss sid = Some s" and "id_session s' = sid"
  shows "getSessionById (map (\<lambda>x. if id_session x = sid then s' else x) ss) sid = Some s'"
  unfolding getSessionById_def
proof (rule find_map_update)
  show "find (\<lambda>s. id_session s = sid) ss = Some s"
    using assms(1) by (simp add: getSessionById_def)
  show "id_session s' = sid" by (rule assms(2))
  show "(if id_session s = sid then s' else s) = s'"
    using getSessionById_id[OF assms(1)] by simp
  show "\<And>x. (if id_session x = sid then s' else x) = x
          \<or> (if id_session x = sid then s' else x) = s'"
    by simp
qed

section \<open>Properties of the authentication service\<close>

text \<open>
  Claim C2. When the user found for the address has a \<open>lockedUntil\<close> that is
  positive and later than the current time, \<open>loginUser\<close> fails with
  \<open>ACCOUNT_LOCKED\<close> and returns the state as it was: no record is changed (in
  particular \<open>failedLoginAttempts\<close>), and no event is logged, so bcrypt was not
  called.
\<close>

theorem loginUser_locked:
  assumes "getUserByEmail (users w) (normalizeEmail email_in) = Some u"
    and "lockedUntil u = Some l" and "0 < l" and "clock env 0 < l"
  shows "loginUser env email_in password otpCode ttlMinutes ip ua w
           = (Inl (AuthError ACCOUNT_LOCKED), w)"
  using assms by (simp add: loginUser_def)

theorem loginUser_locked_witness:
  "getUserByEmail (users (world0\<lparr> users := [alice, bob\<lparr> lockedUntil := Some 1700000900000 \<rparr>] \<rparr>))
       (normalizeEmail '' Bob@Example.com'') = Some (bob\<lparr> lockedUntil := Some 1700000900000 \<rparr>)
   \<and> lockedUntil (bob\<lparr> lockedUntil := Some 1700000900000 \<rparr>) = Some 1700000900000
   \<and> (0 :: int) < 1700000900000 \<and> clock env0 0 < 1700000900000
   \<and> loginUser env0 '' Bob@Example.com'' ''Passw0rd!'' (Some ''123456'') None None None
         (world0\<lparr> users := [alice, bob\<lparr> lockedUntil := Some 1700000900000 \<rparr>] \<rparr>)
       = (Inl (AuthError ACCOUNT_LOCKED),
          world0\<lparr> users := [alice, bob\<lparr> lockedUntil := Some 1700000900000 \<rparr>] \<rparr>)"
proof -
  let ?w = "world0\<lparr> users := [alice, bob\<lparr> lockedUntil := Some 1700000900000 \<rparr>] \<rparr>"
  let ?b = "bob\<lparr> lockedUntil := Some 1700000900000 \<rparr>"
  have n: "normalizeEmail (normalizeEmail '' Bob@Example.com'') = ''bob@example.com''"
    by code_simp
  have v: "isValidEmail ''bob@example.com''"
    by code_simp
  have na: "normalizeEmail ''alice@example.com'' = ''alice@example.com''"
    and nb: "normalizeEmail ''bob@example.com'' = ''bob@example.com''"
    by code_simp+
  have h1: "getUserByEmail (users ?w) (normalizeEmail '' Bob@Example.com'') = Some ?b"
    by (simp add: getUserByEmail_def n v na nb world0_def alice_def bob_def)
  have h2: "lockedUntil ?b = Some 1700000900000" by simp
  have h4: "clock env0 0 < 1700000900000" by (simp add: env0_def)
  show ?thesis
    using h1 h2 h4
      loginUser_locked[OF h1 h2 _ h4, of "''Passw0rd!''" "Some ''123456''" None None None]
    by simp
qed

text \<open>
  Claim C4. \<open>logoutSession\<close> fails with \<open>SESSION_NOT_FOUND\<close> when no session has
  the id, and with the different error \<open>SESSION_INACTIVE\<close> when the session found
  is revoked, or expired at the (valid) time read for the check; in both cases the
  state is returned as it was. Otherwise, the time read for the revocation being a
  valid date, it succeeds, every stored session of that id is replaced by the
  session with \<open>revokedAt\<close> set to that time, one write to the sessions file is
  logged, and the session read back is the revoked one.
\<close>

theorem logoutSession_cases:
  "(getSessionById (sessions w) sid = None \<longrightarrow>
      logoutSession env sid w = (Inl (AuthError SESSION_NOT_FOUND), w))
   \<and> (getSessionById (sessions w) sid = Some s
        \<and> (revokedAt s \<noteq> None \<or> (validDate (clock env 0) \<and> expiresAt s \<le> clock env 0)) \<longrightarrow>
      logoutSession env sid w = (Inl (AuthError SESSION_INACTIVE), w))
   \<and> (getSessionById (sessions w) sid = Some s
        \<and> revokedAt s = None \<and> clock env 0 < expiresAt s \<and> validDate (clock env 1) \<longrightarrow>
      logoutSession env sid w =
        (Inr (toPublicSession (s\<lparr> revokedAt := Some (clock env 1) \<rparr>) (clock env 2)),
         w\<lparr> sessions := map (\<lambda>x. if id_session x = sid
                                  then s\<lparr> revokedAt := Some (clock env 1) \<rparr> else x)
                            (sessions w),
            events := events w @ [WriteSessions] \<rparr>)
      \<and> getSessionById (sessions (snd (logoutSession env sid w))) sid
           = Some (s\<lparr> revokedAt := Some (clock env 1) \<rparr>))
   \<and> AuthError SESSION_NOT_FOUND \<noteq> AuthError SESSION_INACTIVE"
proof (intro conjI impI)
  assume "getSessionById (sessions w) sid = None"
  then show "logoutSession env sid w = (Inl (AuthError SESSION_NOT_FOUND), w)"
    by (simp add: logoutSession_def)
next
  assume "getSessionById (sessions w) sid = Some s
            \<and> (revokedAt s \<noteq> None \<or> (validDate (clock env 0) \<and> expiresAt s \<le> clock env 0))"
  then show "logoutSession env sid w = (Inl (AuthError SESSION_INACTIVE), w)"
    by (auto simp: logoutSession_def isActive_def isExpired_def)
next
  assume h: "getSessionById (sessions w) sid = Some s
               \<and> revokedAt s = None \<and> clock env 0 < expiresAt s \<and> validDate (clock env 1)"
  let ?s1 = "s\<lparr> revokedAt := Some (clock env 1) \<rparr>"
  from h have g: "getSessionById (sessions w) sid = Some s" by simp
  from getSessionById_id[OF g] have i: "id_session s = sid" and m: "s \<in> set (sessions w)"
    by simp_all
  from h have rv: "revokeSession s (clock env 1) = Inr ?s1"
    by (simp add: revokeSession_def toISOString_def)
  from h have act: "isActive s (clock env 0)"
    by (simp add: isActive_def isExpired_def)
  have u: "updateSession ?s1 w =
     (None, w\<lparr> sessions := map (\<lambda>x. if id_session x = id_session s then ?s1 else x) (sessions w),
               events := events w @ [WriteSessions] \<rparr>)"
    by (rule updateSession_present[OF m]) simp
  show r: "logoutSession env sid w =
        (Inr (toPublicSession ?s1 (clock env 2)),
         w\<lparr> sessions := map (\<lambda>x. if id_session x = sid then ?s1 else x) (sessions w),
            events := events w @ [WriteSessions] \<rparr>)"
    using g i u rv act by (simp add: logoutSession_def)
  have "getSessionById (map (\<lambda>x. if id_session x = sid then ?s1 else x) (sessions w)) sid
          = Some ?s1"
    by (rule getSessionById_after_update[OF g]) (simp add: i)
  then show "getSessionById (sessions (snd (logoutSession env sid w))) sid = Some ?s1"
    by (simp add: r)
next
  show "AuthError SESSION_NOT_FOUND \<noteq> AuthError SESSION_INACTIVE" by simp
qed

theorem logoutSession_cases_witness:
  "getSessionById (sessions world0) ''s-7'' = None
   \<and> logoutSession env0 ''s-7'' world0 = (Inl (AuthError SESSION_NOT_FOUND), world0)
   \<and> getSessionById (sessions world0) ''s-2'' = Some session1
   \<and> revokedAt session1 \<noteq> None
   \<and> logoutSession env0 ''s-2'' world0 = (Inl (AuthError SESSION_INACTIVE), world0)
   \<and> validDate (clock (envAt 1700002600000) 0)
   \<and> expiresAt session0 \<le> clock (envAt 1700002600000) 0
   \<and> logoutSession (envAt 1700002600000) ''s-1'' world0
        = (Inl (AuthError SESSION_INACTIVE), world0)
   \<and> getSessionById (sessions world0) ''s-1'' = Some session0
   \<and> revokedAt session0 = None \<and> clock env0 0 < expiresAt session0
   \<and> validDate (clock env0 1)
   \<and> getSessionById (sessions (snd (logoutSession env0 ''s-1'' world0))) ''s-1''
        = Some (session0\<lparr> revokedAt := Some (clock env0 1) \<rparr>)"
proof -
  have g7: "getSessionById (sessions world0) ''s-7'' = None"
    by (simp add: getSessionById_def world0_def session0_def session1_def)
  have g2: "getSessionById (sessions world0) ''s-2'' = Some session1"
    by (simp add: getSessionById_def world0_def session0_def session1_def)
  have g1: "getSessionById (sessions world0) ''s-1'' = Some session0"
    by (simp add: getSessionById_def world0_def session0_def session1_def)
  have r2: "revokedAt session1 \<noteq> None"
    by (simp add: session1_def)
  have e1: "validDate (clock (envAt 1700002600000) 0)
            \<and> expiresAt session0 \<le> clock (envAt 1700002600000) 0"
    by (simp add: session0_def envAt_def validDate_def MAX_TIME_def)
  have a1: "revokedAt session0 = None \<and> clock env0 0 < expiresAt session0
            \<and> validDate (clock env0 1)"
    by (simp add: session0_def env0_def validDate_def MAX_TIME_def)
  have t7: "logoutSession env0 ''s-7'' world0 = (Inl (AuthError SESSION_NOT_FOUND), world0)"
    using logoutSession_cases[of world0 "''s-7''" env0 session0] g7 by blast
  have t2: "logoutSession env0 ''s-2'' world0 = (Inl (AuthError SESSION_INACTIVE), world0)"
    using logoutSession_cases[of world0 "''s-2''" env0 session1] g2 r2 by blast
  have t3: "logoutSession (envAt 1700002600000) ''s-1'' world0
              = (Inl (AuthError SESSION_INACTIVE), world0)"
    using logoutSession_cases[of world0 "''s-1''" "envAt 1700002600000" session0] g1 e1 by blast
  have t1: "getSessionById (sessions (snd (logoutSession env0 ''s-1'' world0))) ''s-1''
        = Some (session0\<lparr> revokedAt := Some (clock env0 1) \<rparr>)"
    using logoutSession_cases[of world0 "''s-1''" env0 session0] g1 a1 by blast
  from g7 t7 g2 r2 t2 e1 t3 g1 a1 t1 show ?thesis by blast
qed

text \<open>
  Claim C8. For an existing user \<open>setupMfa\<close> succeeds, stores the generated secret
  with \<open>mfaEnabled = false\<close> in place of whatever was stored before, and writes the
  users file; the record read back has the new secret and MFA disabled.
  \<open>verifyMfa\<close> fails with \<open>MFA_NOT_ENABLED\<close> when the user has no secret; with a
  secret, it returns \<open>true\<close>, stores \<open>mfaEnabled = true\<close> and writes the file when
  the TOTP library accepts the code, and returns \<open>false\<close> without touching the
  users when it rejects the code.
\<close>

theorem mfa_setup_verify:
  "(getUserById (users w) uid = Some u \<longrightarrow>
      setupMfa env uid issuer w =
        (Inr (totp_generateSecret env,
              totp_keyuri env (email u) (case issuer of None \<Rightarrow> ''AuthCLI'' | Some i \<Rightarrow> i)
                (totp_generateSecret env)),
         w\<lparr> users := map (\<lambda>x. if id_user x = uid
                               then u\<lparr> mfaSecret := Some (totp_generateSecret env),
                                      mfaEnabled := Some False,
                                      updatedAt := clock env 0 \<rparr>
                               else x) (users w),
            events := events w @ [TotpGenerateSecret, WriteUsers] \<rparr>)
      \<and> getUserById (users (snd (setupMfa env uid issuer w))) uid
           = Some (u\<lparr> mfaSecret := Some (totp_generateSecret env), mfaEnabled := Some False,
                      updatedAt := clock env 0 \<rparr>))
   \<and> (getUserById (users w) uid = Some u \<and> (mfaSecret u = None \<or> mfaSecret u = Some []) \<longrightarrow>
        verifyMfa env uid code w = (Inl (AuthError MFA_NOT_ENABLED), w))
   \<and> (getUserById (users w) uid = Some u \<and> mfaSecret u = Some secret \<and> secret \<noteq> []
        \<and> totp_verify env code secret \<longrightarrow>
        verifyMfa env uid code w =
          (Inr True,
           w\<lparr> users := map (\<lambda>x. if id_user x = uid
                                 then u\<lparr> mfaEnabled := Some True, updatedAt := clock env 0 \<rparr>
                                 else x) (users w),
              events := events w @ [TotpVerify code secret, WriteUsers] \<rparr>))
   \<and> (getUserById (users w) uid = Some u \<and> mfaSecret u = Some secret \<and> secret \<noteq> []
        \<and> \<not> totp_verify env code secret \<longrightarrow>
        verifyMfa env uid code w
          = (Inr False, w\<lparr> events := events w @ [TotpVerify code secret] \<rparr>))"
proof (intro conjI impI)
  assume g: "getUserById (users w) uid = Some u"
  let ?u1 = "u\<lparr> mfaSecret := Some (totp_generateSecret env), mfaEnabled := Some False,
               updatedAt := clock env 0 \<rparr>"
  let ?w1 = "emit TotpGenerateSecret w"
  from getUserById_id[OF g] have i: "id_user u = uid" and m: "u \<in> set (users ?w1)"
    by (simp_all add: emit_def)
  have up: "updateUser ?u1 ?w1 =
     (None, ?w1\<lparr> users := map (\<lambda>x. if id_user x = id_user u then ?u1 else x) (users ?w1),
                 events := events ?w1 @ [WriteUsers] \<rparr>)"
    by (rule updateUser_present[OF m]) simp
  show r: "setupMfa env uid issuer w =
        (Inr (totp_generateSecret env,
              totp_keyuri env (email u) (case issuer of None \<Rightarrow> ''AuthCLI'' | Some i \<Rightarrow> i)
                (totp_generateSecret env)),
         w\<lparr> users := map (\<lambda>x. if id_user x = uid then ?u1 else x) (users w),
            events := events w @ [TotpGenerateSecret, WriteUsers] \<rparr>)"
    using g i up by (simp add: setupMfa_def touchUpdated_def emit_def Let_def)
  have "getUserById (map (\<lambda>x. if id_user x = uid then ?u1 else x) (users w)) uid = Some ?u1"
    by (rule getUserById_after_update[OF g]) (simp add: i)
  then show "getUserById (users (snd (setupMfa env uid issuer w))) uid = Some ?u1"
    by (simp add: r)
next
  assume "getUserById (users w) uid = Some u \<and> (mfaSecret u = None \<or> mfaSecret u = Some [])"
  then show "verifyMfa env uid code w = (Inl (AuthError MFA_NOT_ENABLED), w)"
    by (auto simp: verifyMfa_def truthy_def)
next
  assume h: "getUserById (users w) uid = Some u \<and> mfaSecret u = Some secret \<and> secret \<noteq> []
               \<and> totp_verify env code secret"
  let ?u1 = "u\<lparr> mfaEnabled := Some True, updatedAt := clock env 0 \<rparr>"
  let ?w1 = "emit (TotpVerify code secret) w"
  from h have g: "getUserById (users w) uid = Some u" by simp
  from getUserById_id[OF g] have i: "id_user u = uid" and m: "u \<in> set (users ?w1)"
    by (simp_all add: emit_def)
  have up: "updateUser ?u1 ?w1 =
     (None, ?w1\<lparr> users := map (\<lambda>x. if id_user x = id_user u then ?u1 else x) (users ?w1),
                 events := events ?w1 @ [WriteUsers] \<rparr>)"
    by (rule updateUser_present[OF m]) simp
  show "verifyMfa env uid code w =
          (Inr True,
           w\<lparr> users := map (\<lambda>x. if id_user x = uid then ?u1 else x) (users w),
              events := events w @ [TotpVerify code secret, WriteUsers] \<rparr>)"
    using h i up by (simp add: verifyMfa_def truthy_def touchUpdated_def emit_def Let_def)
next
  assume "getUserById (users w) uid = Some u \<and> mfaSecret u = Some secret \<and> secret \<noteq> []
            \<and> \<not> totp_verify env code secret"
  then show "verifyMfa env uid code w
               = (Inr False, w\<lparr> events := events w @ [TotpVerify code secret] \<rparr>)"
    by (simp add: verifyMfa_def truthy_def emit_def Let_def)
qed

theorem mfa_setup_verify_witness:
  "getUserById (users world0) ''u-1'' = Some alice
   \<and> getUserById (users (snd (setupMfa env0 ''u-1'' None world0))) ''u-1''
        = Some (alice\<lparr> mfaSecret := Some (totp_generateSecret env0), mfaEnabled := Some False,
                       updatedAt := clock env0 0 \<rparr>)
   \<and> (mfaSecret alice = None \<or> mfaSecret alice = Some [])
   \<and> verifyMfa env0 ''u-1'' ''123456'' world0 = (Inl (AuthError MFA_NOT_ENABLED), world0)
   \<and> getUserById (users world0) ''u-2'' = Some bob
   \<and> mfaSecret bob = Some ''KRSXG5A='' \<and> ''KRSXG5A='' \<noteq> []
   \<and> totp_verify env0 ''123456'' ''KRSXG5A=''
   \<and> fst (verifyMfa env0 ''u-2'' ''123456'' world0) = Inr True
   \<and> \<not> totp_verify env0 ''654321'' ''KRSXG5A=''
   \<and> verifyMfa env0 ''u-2'' ''654321'' world0
        = (Inr False, world0\<lparr> events := events world0 @ [TotpVerify ''654321'' ''KRSXG5A=''] \<rparr>)"
proof -
  have ga: "getUserById (users world0) ''u-1'' = Some alice"
    by (simp add: getUserById_def world0_def alice_def)
  have gb: "getUserById (users world0) ''u-2'' = Some bob"
    by (simp add: getUserById_def world0_def alice_def bob_def)
  have sa: "mfaSecret alice = None \<or> mfaSecret alice = Some []" by (simp add: alice_def)
  have sb: "mfaSecret bob = Some ''KRSXG5A=''" by (simp add: bob_def)
  have n: "''KRSXG5A='' \<noteq> []" by simp
  have acc: "totp_verify env0 ''123456'' ''KRSXG5A=''" by (simp add: env0_def)
  have rej: "\<not> totp_verify env0 ''654321'' ''KRSXG5A=''" by (simp add: env0_def)
  have t1: "getUserById (users (snd (setupMfa env0 ''u-1'' None world0))) ''u-1''
        = Some (alice\<lparr> mfaSecret := Some (totp_generateSecret env0), mfaEnabled := Some False,
                       updatedAt := clock env0 0 \<rparr>)"
    using mfa_setup_verify[of world0 "''u-1''" alice env0 None "''123456''" "''x''"] ga by blast
  have t2: "verifyMfa env0 ''u-1'' ''123456'' world0 = (Inl (AuthError MFA_NOT_ENABLED), world0)"
    using mfa_setup_verify[of world0 "''u-1''" alice env0 None "''123456''" "''x''"] ga sa by blast
  have t3: "fst (verifyMfa env0 ''u-2'' ''123456'' world0) = Inr True"
    using mfa_setup_verify[of world0 "''u-2''" bob env0 None "''123456''" "''KRSXG5A=''"]
      gb sb n acc by simp
  have t4: "verifyMfa env0 ''u-2'' ''654321'' world0
        = (Inr False, world0\<lparr> events := events world0 @ [TotpVerify ''654321'' ''KRSXG5A=''] \<rparr>)"
    using mfa_setup_verify[of world0 "''u-2''" bob env0 None "''654321''" "''KRSXG5A=''"]
      gb sb n rej by simp
  from ga t1 sa t2 gb sb n acc t3 rej t4 show ?thesis by blast
qed

lemma bumpFailed_present:
  assumes "u \<in> set (users w)" and "id_user u1 = id_user u"
    and "r 0 = t1" and "r 1 = t2"
  shows "bumpFailed r u1 w =
     (None, w\<lparr> users := map (\<lambda>x. if id_user x = id_user u
                                 then (spec_failedAttempt t1 u1)
                                        \<lparr> updatedAt := (if 5 \<le> failedCount u1 + 1 then t2 else t1) \<rparr>
                                 else x)
                            (users w),
               events := events w @ [WriteUsers] \<rparr>)"
proof -
  let ?u3 = "(spec_failedAttempt t1 u1)
               \<lparr> updatedAt := (if 5 \<le> failedCount u1 + 1 then t2 else t1) \<rparr>"
  have "bumpFailed r u1 w = updateUser ?u3 w"
    using assms(3,4)
    by (simp add: bumpFailed_def spec_failedAttempt_def failedCount_def Let_def MAX_FAILED_def
        LOCK_MINUTES_def touchUpdated_def)
  moreover have "id_user ?u3 = id_user u"
    using assms(2) by (simp add: spec_failedAttempt_def Let_def)
  ultimately show ?thesis
    using updateUser_present[OF assms(1), of ?u3] by simp
qed

lemma not_locked_case:
  "\<not> (\<exists>l. lockedUntil u = Some l \<and> 0 < l \<and> now < l) \<Longrightarrow>
   \<not> (case lockedUntil u of None \<Rightarrow> False | Some l \<Rightarrow> l \<noteq> 0 \<and> l > 0 \<and> l > now)"
  by (auto split: option.splits)

lemma loginUser_bad_password:
  assumes "getUserByEmail (users w) (normalizeEmail email_in) = Some u"
    and "\<not> (\<exists>l. lockedUntil u = Some l \<and> 0 < l \<and> clock env 0 < l)"
    and "\<not> bcrypt_compare env password (passHash u)"
  shows "loginUser env email_in password otpCode ttlMinutes ip ua w =
     (Inl (AuthError INVALID_CREDENTIALS),
      w\<lparr> users := map (\<lambda>x. if id_user x = id_user u
                            then (spec_failedAttempt (clock env 1) u)
                                   \<lparr> updatedAt := (if 5 \<le> failedCount u + 1
                                                   then clock env 2 else clock env 1) \<rparr>
                            else x) (users w),
         events := events w @ [BcryptCompare password (passHash u), WriteUsers] \<rparr>)"
proof -
  let ?w1 = "emit (BcryptCompare password (passHash u)) w"
  have m: "u \<in> set (users ?w1)"
    using getUserByEmail_mem[OF assms(1)] by (simp add: emit_def)
  have b: "bumpFailed (\<lambda>k. clock env (k + 1)) u ?w1 =
     (None, ?w1\<lparr> users := map (\<lambda>x. if id_user x = id_user u
                                 then (spec_failedAttempt (clock env 1) u)
                                        \<lparr> updatedAt := (if 5 \<le> failedCount u + 1
                                                        then clock env 2 else clock env 1) \<rparr>
                                 else x)
                            (users ?w1),
               events := events ?w1 @ [WriteUsers] \<rparr>)"
    by (rule bumpFailed_present[of u ?w1 u "\<lambda>k. clock env (k + 1)" "clock env 1" "clock env 2",
          OF m refl]) (simp_all add: numeral_2_eq_2)
  show ?thesis
    using assms(1,3) not_locked_case[OF assms(2)] b
    by (simp add: loginUser_def verifyPassword_def emit_def)
qed

text \<open>
  The state of \<open>loginUser\<close> when the MFA check is reached: the password matched,
  and the hash was renewed in memory where \<open>needsRehash\<close> asked for it.
\<close>

lemma loginUser_bad_mfa:
  assumes "getUserByEmail (users w) (normalizeEmail email_in) = Some u"
    and "\<not> (\<exists>l. lockedUntil u = Some l \<and> 0 < l \<and> clock env 0 < l)"
    and "bcrypt_compare env password (passHash u)"
    and "mfaEnabled u = Some True" and "c \<noteq> []"
    and "\<not> (\<exists>s. mfaSecret u = Some s \<and> s \<noteq> [] \<and> totp_verify env c s)"
  shows "loginUser env email_in password (Some c) ttlMinutes ip ua w =
     (Inl (AuthError MFA_INVALID),
      w\<lparr> users := map (\<lambda>x. if id_user x = id_user u
                            then (spec_failedAttempt (clock env 1)
                                    (if needsRehash env (passHash u)
                                     then u\<lparr> passHash := bcrypt_hash env password \<rparr> else u))
                                 \<lparr> updatedAt := (if 5 \<le> failedCount u + 1
                                                 then clock env 2 else clock env 1) \<rparr>
                            else x) (users w),
         events := events w @ [BcryptCompare password (passHash u)]
                   @ (if needsRehash env (passHash u) then [BcryptHash password] else [])
                   @ (case mfaSecret u of None \<Rightarrow> [] | Some s \<Rightarrow> if s = [] then [] else [TotpVerify c s])
                   @ [WriteUsers] \<rparr>)"
proof -
  let ?u1 = "if needsRehash env (passHash u) then u\<lparr> passHash := bcrypt_hash env password \<rparr> else u"
  let ?ev = "[BcryptCompare password (passHash u)]
                   @ (if needsRehash env (passHash u) then [BcryptHash password] else [])
                   @ (case mfaSecret u of None \<Rightarrow> [] | Some s \<Rightarrow> if s = [] then [] else [TotpVerify c s])"
  let ?w3 = "w\<lparr> events := events w @ ?ev \<rparr>"
  have m: "u \<in> set (users ?w3)"
    using getUserByEmail_mem[OF assms(1)] by simp
  have i: "id_user ?u1 = id_user u" by simp
  have f: "failedCount ?u1 = failedCount u" by (simp add: failedCount_def)
  have "bumpFailed (\<lambda>k. clock env (k + 1)) ?u1 ?w3 =
     (None, ?w3\<lparr> users := map (\<lambda>x. if id_user x = id_user u
                                 then (spec_failedAttempt (clock env 1) ?u1)
                                        \<lparr> updatedAt := (if 5 \<le> failedCount ?u1 + 1
                                                        then clock env 2 else clock env 1) \<rparr>
                                 else x)
                            (users ?w3),
               events := events ?w3 @ [WriteUsers] \<rparr>)"
    by (rule bumpFailed_present[of u ?w3 ?u1 "\<lambda>k. clock env (k + 1)" "clock env 1" "clock env 2",
          OF m i]) (simp_all add: numeral_2_eq_2)
  then have b: "bumpFailed (\<lambda>k. clock env (k + 1)) ?u1 ?w3 =
     (None, ?w3\<lparr> users := map (\<lambda>x. if id_user x = id_user u
                                 then (spec_failedAttempt (clock env 1) ?u1)
                                        \<lparr> updatedAt := (if 5 \<le> failedCount u + 1
                                                        then clock env 2 else clock env 1) \<rparr>
                                 else x)
                            (users ?w3),
               events := events ?w3 @ [WriteUsers] \<rparr>)"
    by (simp only: f)
  have vt: "verifyTotp env ?u1 c w2 =
     (False, w2\<lparr> events := events w2 @ (case mfaSecret u of None \<Rightarrow> [] | Some s \<Rightarrow> if s = [] then [] else [TotpVerify c s]) \<rparr>)" for w2
    using assms(6) by (auto simp: verifyTotp_def emit_def split: option.splits)
  show ?thesis
  proof (cases "needsRehash env (passHash u)")
    case True
    with assms(1,3,4,5) not_locked_case[OF assms(2)] b vt show ?thesis
      by (simp add: loginUser_def verifyPassword_def hashPassword_def emit_def truthy_def)
  next
    case False
    with assms(1,3,4,5) not_locked_case[OF assms(2)] b vt show ?thesis
      by (simp add: loginUser_def verifyPassword_def hashPassword_def emit_def truthy_def)
  qed
qed

lemma updateUser_error: "updateUser x w = (Some e, w') \<Longrightarrow> e = Error ''USER_NOT_FOUND''"
  by (auto simp: updateUser_def split: if_splits)

lemma createSession_error: "createSession sid uid ttl now ip ua = Inl e \<Longrightarrow> e = RangeError"
  by (auto simp: createSession_def toISOString_def split: if_splits sum.splits)

text \<open>
  Which runs of \<open>loginUser\<close> end in \<open>INVALID_CREDENTIALS\<close> or \<open>MFA_INVALID\<close>:
  those that reach the password check and fail it, and those that pass it and fail
  the MFA check with a code supplied.
\<close>

lemma loginUser_failure_inversion:
  assumes "getUserByEmail (users w) (normalizeEmail email_in) = Some u"
    and "fst (loginUser env email_in password otpCode ttlMinutes ip ua w) = Inl (AuthError INVALID_CREDENTIALS)
         \<or> fst (loginUser env email_in password otpCode ttlMinutes ip ua w) = Inl (AuthError MFA_INVALID)"
  shows "\<not> (\<exists>l. lockedUntil u = Some l \<and> 0 < l \<and> clock env 0 < l)
     \<and> (\<not> bcrypt_compare env password (passHash u)
        \<or> (bcrypt_compare env password (passHash u) \<and> mfaEnabled u = Some True
            \<and> (\<exists>c. otpCode = Some c \<and> c \<noteq> []
                   \<and> \<not> (\<exists>s. mfaSecret u = Some s \<and> s \<noteq> [] \<and> totp_verify env c s))))"
  using assms
  by (auto simp: loginUser_def verifyPassword_def hashPassword_def verifyTotp_def emit_def
      truthy_def Let_def
      split: option.splits if_splits prod.splits sum.splits
      dest: updateUser_error createSession_error)

lemma spec_failedAttempt_fields:
  "failedLoginAttempts (spec_failedAttempt t u) = Some (failedCount u + 1)"
  "lockedUntil (spec_failedAttempt t u)
     = (if 5 \<le> failedCount u + 1 then Some (t + 15 * 60 * 1000) else lockedUntil u)"
  "email (spec_failedAttempt t u) = email u"
  "id_user (spec_failedAttempt t u) = id_user u"
  by (simp_all add: spec_failedAttempt_def failedCount_def Let_def)

lemma loginUser_failure_step:
  assumes found: "getUserByEmail (users w) (normalizeEmail email_in) = Some u"
    and fail: "fst (loginUser env email_in password otpCode ttlMinutes ip ua w) = Inl (AuthError INVALID_CREDENTIALS)
         \<or> fst (loginUser env email_in password otpCode ttlMinutes ip ua w) = Inl (AuthError MFA_INVALID)"
  shows "\<exists>u'. getUserByEmail (users (snd (loginUser env email_in password otpCode ttlMinutes ip ua w)))
                 (normalizeEmail email_in) = Some u'
           \<and> failedLoginAttempts u' = Some (failedCount u + 1)
           \<and> lockedUntil u' = (if 5 \<le> failedCount u + 1
                                then Some (clock env 1 + 15 * 60 * 1000) else lockedUntil u)"
proof -
  from loginUser_failure_inversion[OF found fail]
  have nl: "\<not> (\<exists>l. lockedUntil u = Some l \<and> 0 < l \<and> clock env 0 < l)"
    and alt: "\<not> bcrypt_compare env password (passHash u)
        \<or> (bcrypt_compare env password (passHash u) \<and> mfaEnabled u = Some True
            \<and> (\<exists>c. otpCode = Some c \<and> c \<noteq> []
                   \<and> \<not> (\<exists>s. mfaSecret u = Some s \<and> s \<noteq> [] \<and> totp_verify env c s)))"
    by simp_all
  from alt show ?thesis
  proof
    assume bad: "\<not> bcrypt_compare env password (passHash u)"
    let ?u' = "(spec_failedAttempt (clock env 1) u)
                 \<lparr> updatedAt := (if 5 \<le> failedCount u + 1 then clock env 2 else clock env 1) \<rparr>"
    have "getUserByEmail (map (\<lambda>x. if id_user x = id_user u then ?u' else x) (users w))
            (normalizeEmail email_in) = Some ?u'"
      by (rule getUserByEmail_after_update[OF found]) (simp add: spec_failedAttempt_fields)
    then show ?thesis
      by (simp add: loginUser_bad_password[OF found nl bad] spec_failedAttempt_fields)
  next
    assume "bcrypt_compare env password (passHash u) \<and> mfaEnabled u = Some True
            \<and> (\<exists>c. otpCode = Some c \<and> c \<noteq> []
                   \<and> \<not> (\<exists>s. mfaSecret u = Some s \<and> s \<noteq> [] \<and> totp_verify env c s))"
    then obtain c where ok: "bcrypt_compare env password (passHash u)"
      and en: "mfaEnabled u = Some True" and oc: "otpCode = Some c" and ce: "c \<noteq> []"
      and rej: "\<not> (\<exists>s. mfaSecret u = Some s \<and> s \<noteq> [] \<and> totp_verify env c s)"
      by blast
    let ?u1 = "if needsRehash env (passHash u) then u\<lparr> passHash := bcrypt_hash env password \<rparr> else u"
    let ?u' = "(spec_failedAttempt (clock env 1) ?u1)
                 \<lparr> updatedAt := (if 5 \<le> failedCount u + 1 then clock env 2 else clock env 1) \<rparr>"
    have f1: "failedCount ?u1 = failedCount u" and l1: "lockedUntil ?u1 = lockedUntil u"
      by (simp_all add: failedCount_def)
    have "getUserByEmail (map (\<lambda>x. if id_user x = id_user u then ?u' else x) (users w))
            (normalizeEmail email_in) = Some ?u'"
      by (rule getUserByEmail_after_update[OF found]) (simp add: spec_failedAttempt_fields)
    then show ?thesis
      unfolding oc
      by (simp add: loginUser_bad_mfa[OF found nl ok en ce rej] spec_failedAttempt_fields f1 l1
          del: spec_failedAttempt_def)
  qed
qed

lemma loginAttempts_failures:
  assumes "getUserByEmail (users w) (normalizeEmail email_in) = Some u"
    and "\<forall>r \<in> set (fst (loginAttempts email_in as w)).
           r = Inl (AuthError INVALID_CREDENTIALS) \<or> r = Inl (AuthError MFA_INVALID)"
  shows "\<exists>u'. getUserByEmail (users (snd (loginAttempts email_in as w))) (normalizeEmail email_in)
                 = Some u'
           \<and> failedCount u' = failedCount u + int (length as)
           \<and> (as \<noteq> [] \<longrightarrow> failedLoginAttempts u' = Some (failedCount u + int (length as)))
           \<and> (as \<noteq> [] \<and> 5 \<le> failedCount u + int (length as)
                \<longrightarrow> lockedUntil u' = Some (clock (fst (last as)) 1 + 15 * 60 * 1000))"
  using assms
proof (induction as arbitrary: w u)
  case Nil
  then show ?case by simp
next
  case (Cons a rest)
  obtain env password otpCode where a: "a = (env, password, otpCode)" by (cases a)
  let ?step = "loginUser env email_in password otpCode None None None w"
  obtain r w1 where s: "?step = (r, w1)" by (cases ?step)
  obtain rs w2 where t: "loginAttempts email_in rest w1 = (rs, w2)"
    by (cases "loginAttempts email_in rest w1")
  have whole: "loginAttempts email_in (a # rest) w = (r # rs, w2)"
    by (simp add: a s t)
  from Cons.prems(2) whole
  have fr: "r = Inl (AuthError INVALID_CREDENTIALS) \<or> r = Inl (AuthError MFA_INVALID)"
    and frs: "\<forall>r \<in> set rs. r = Inl (AuthError INVALID_CREDENTIALS) \<or> r = Inl (AuthError MFA_INVALID)"
    by simp_all
  from loginUser_failure_step[OF Cons.prems(1), of env password otpCode None None None] fr s
  obtain u1 where g1: "getUserByEmail (users w1) (normalizeEmail email_in) = Some u1"
    and c1: "failedLoginAttempts u1 = Some (failedCount u + 1)"
    and l1: "lockedUntil u1 = (if 5 \<le> failedCount u + 1
                                then Some (clock env 1 + 15 * 60 * 1000) else lockedUntil u)"
    by auto
  have fc1: "failedCount u1 = failedCount u + 1"
    using c1 by (simp add: failedCount_def)
  from Cons.IH[OF g1] frs t
  obtain u' where g': "getUserByEmail (users w2) (normalizeEmail email_in) = Some u'"
    and c': "failedCount u' = failedCount u1 + int (length rest)"
    and c'': "rest \<noteq> [] \<longrightarrow> failedLoginAttempts u' = Some (failedCount u1 + int (length rest))"
    and l': "rest \<noteq> [] \<and> 5 \<le> failedCount u1 + int (length rest)
                \<longrightarrow> lockedUntil u' = Some (clock (fst (last rest)) 1 + 15 * 60 * 1000)"
    by auto
  have sw: "snd (loginAttempts email_in (a # rest) w) = w2"
    by (simp only: whole snd_conv)
  have len: "int (length (a # rest)) = 1 + int (length rest)" by simp
  show ?case
  proof (cases "rest = []")
    case True
    with t g1 g' have same: "u' = u1" by simp
    have la: "fst (last (a # rest)) = env" using True a by simp
    have "failedCount u' = failedCount u + int (length (a # rest))"
      and "failedLoginAttempts u' = Some (failedCount u + int (length (a # rest)))"
      and "5 \<le> failedCount u + int (length (a # rest))
             \<longrightarrow> lockedUntil u' = Some (clock (fst (last (a # rest))) 1 + 15 * 60 * 1000)"
      unfolding la len using True same c1 l1 fc1 by simp_all
    with g' show ?thesis
      unfolding sw by blast
  next
    case False
    then have la: "last (a # rest) = last rest" by simp
    have "failedCount u' = failedCount u + int (length (a # rest))"
      and "failedLoginAttempts u' = Some (failedCount u + int (length (a # rest)))"
      and "5 \<le> failedCount u + int (length (a # rest))
             \<longrightarrow> lockedUntil u' = Some (clock (fst (last (a # rest))) 1 + 15 * 60 * 1000)"
      unfolding la len using False c' c'' l' fc1 by simp_all
    with g' show ?thesis
      unfolding sw by blast
  qed
qed

text \<open>
  Claim C1. When the user is found and not locked and bcrypt rejects the password,
  \<open>loginUser\<close> fails with \<open>INVALID_CREDENTIALS\<close>, and the record it has written to
  the users file is the one the rule of the specification prescribes
  (\<open>spec_failedAttempt\<close>: counter plus one; at five, locked for 15 minutes from the
  time read in \<open>bumpFailed\<close>), with \<open>updatedAt\<close> set to the reading of the clock
  that \<open>touchUpdated\<close> makes: the first one after the lockout check while the
  counter stays below five, the second one when the account is locked,
  \<open>Date.now()\<close> having taken the first. When the password is accepted, MFA is
  enabled, a code is supplied and the code is not accepted, it fails with
  \<open>MFA_INVALID\<close> after writing the record prescribed by the same rule (on the user
  as it is then, with the hash renewed where a rehash was due). So five attempts in
  a row on an account whose counter is 0, each ending in either of the two errors,
  leave the counter at 5 and the account locked until 15 minutes after the last of
  them.
\<close>

theorem loginUser_failed_attempt:
  "(getUserByEmail (users w) (normalizeEmail email_in) = Some u
      \<and> \<not> (\<exists>l. lockedUntil u = Some l \<and> 0 < l \<and> clock env 0 < l)
      \<and> \<not> bcrypt_compare env password (passHash u)
    \<longrightarrow> loginUser env email_in password otpCode ttlMinutes ip ua w =
         (Inl (AuthError INVALID_CREDENTIALS),
          w\<lparr> users := map (\<lambda>x. if id_user x = id_user u
                                then (spec_failedAttempt (clock env 1) u)
                                       \<lparr> updatedAt := (if 5 \<le> failedCount u + 1
                                                       then clock env 2 else clock env 1) \<rparr>
                                else x) (users w),
             events := events w @ [BcryptCompare password (passHash u), WriteUsers] \<rparr>))
   \<and> (getUserByEmail (users w) (normalizeEmail email_in) = Some u
      \<and> \<not> (\<exists>l. lockedUntil u = Some l \<and> 0 < l \<and> clock env 0 < l)
      \<and> bcrypt_compare env password (passHash u)
      \<and> mfaEnabled u = Some True \<and> c \<noteq> []
      \<and> \<not> (\<exists>s. mfaSecret u = Some s \<and> s \<noteq> [] \<and> totp_verify env c s)
    \<longrightarrow> loginUser env email_in password (Some c) ttlMinutes ip ua w =
         (Inl (AuthError MFA_INVALID),
          w\<lparr> users := map (\<lambda>x. if id_user x = id_user u
                                then (spec_failedAttempt (clock env 1)
                                        (if needsRehash env (passHash u)
                                         then u\<lparr> passHash := bcrypt_hash env password \<rparr>
                                         else u))
                                       \<lparr> updatedAt := (if 5 \<le> failedCount u + 1
                                                       then clock env 2 else clock env 1) \<rparr>
                                else x) (users w),
             events := events w @ [BcryptCompare password (passHash u)]
                       @ (if needsRehash env (passHash u) then [BcryptHash password] else [])
                       @ (case mfaSecret u of
                            None \<Rightarrow> []
                          | Some s \<Rightarrow> if s = [] then [] else [TotpVerify c s])
                       @ [WriteUsers] \<rparr>))
   \<and> failedLoginAttempts (spec_failedAttempt t u) = Some (failedCount u + 1)
   \<and> (failedCount u + 1 = 5 \<longrightarrow>
        lockedUntil (spec_failedAttempt t u) = Some (t + 15 * 60 * 1000))
   \<and> (getUserByEmail (users w) (normalizeEmail email_in) = Some u
      \<and> failedCount u = 0 \<and> length as = 5
      \<and> (\<forall>r \<in> set (fst (loginAttempts email_in as w)).
            r = Inl (AuthError INVALID_CREDENTIALS) \<or> r = Inl (AuthError MFA_INVALID))
    \<longrightarrow> (\<exists>u'. getUserByEmail (users (snd (loginAttempts email_in as w)))
                   (normalizeEmail email_in) = Some u'
              \<and> failedLoginAttempts u' = Some 5
              \<and> lockedUntil u' = Some (clock (fst (last as)) 1 + 15 * 60 * 1000)))"
proof (intro conjI impI)
  assume "getUserByEmail (users w) (normalizeEmail email_in) = Some u
      \<and> \<not> (\<exists>l. lockedUntil u = Some l \<and> 0 < l \<and> clock env 0 < l)
      \<and> \<not> bcrypt_compare env password (passHash u)"
  then show "loginUser env email_in password otpCode ttlMinutes ip ua w =
         (Inl (AuthError INVALID_CREDENTIALS),
          w\<lparr> users := map (\<lambda>x. if id_user x = id_user u
                                then (spec_failedAttempt (clock env 1) u)
                                       \<lparr> updatedAt := (if 5 \<le> failedCount u + 1
                                                       then clock env 2 else clock env 1) \<rparr>
                                else x) (users w),
             events := events w @ [BcryptCompare password (passHash u), WriteUsers] \<rparr>)"
    using loginUser_bad_password[of w email_in u env password otpCode ttlMinutes ip ua] by blast
next
  assume "getUserByEmail (users w) (normalizeEmail email_in) = Some u
      \<and> \<not> (\<exists>l. lockedUntil u = Some l \<and> 0 < l \<and> clock env 0 < l)
      \<and> bcrypt_compare env password (passHash u)
      \<and> mfaEnabled u = Some True \<and> c \<noteq> []
      \<and> \<not> (\<exists>s. mfaSecret u = Some s \<and> s \<noteq> [] \<and> totp_verify env c s)"
  then show "loginUser env email_in password (Some c) ttlMinutes ip ua w =
         (Inl (AuthError MFA_INVALID),
          w\<lparr> users := map (\<lambda>x. if id_user x = id_user u
                                then (spec_failedAttempt (clock env 1)
                                        (if needsRehash env (passHash u)
                                         then u\<lparr> passHash := bcrypt_hash env password \<rparr>
                                         else u))
                                       \<lparr> updatedAt := (if 5 \<le> failedCount u + 1
                                                       then clock env 2 else clock env 1) \<rparr>
                                else x) (users w),
             events := events w @ [BcryptCompare password (passHash u)]
                       @ (if needsRehash env (passHash u) then [BcryptHash password] else [])
                       @ (case mfaSecret u of
                            None \<Rightarrow> []
                          | Some s \<Rightarrow> if s = [] then [] else [TotpVerify c s])
                       @ [WriteUsers] \<rparr>)"
    using loginUser_bad_mfa[of w email_in u env password c ttlMinutes ip ua] by blast
next
  show "failedLoginAttempts (spec_failedAttempt t u) = Some (failedCount u + 1)"
    by (rule spec_failedAttempt_fields)
next
  assume "failedCount u + 1 = 5"
  then show "lockedUntil (spec_failedAttempt t u) = Some (t + 15 * 60 * 1000)"
    by (simp add: spec_failedAttempt_fields)
next
  assume h: "getUserByEmail (users w) (normalizeEmail email_in) = Some u
      \<and> failedCount u = 0 \<and> length as = 5
      \<and> (\<forall>r \<in> set (fst (loginAttempts email_in as w)).
            r = Inl (AuthError INVALID_CREDENTIALS) \<or> r = Inl (AuthError MFA_INVALID))"
  then have ne: "as \<noteq> []" and five: "failedCount u + int (length as) = 5" by auto
  from h loginAttempts_failures[of w email_in u as]
  obtain u' where "getUserByEmail (users (snd (loginAttempts email_in as w)))
                     (normalizeEmail email_in) = Some u'"
    and "as \<noteq> [] \<longrightarrow> failedLoginAttempts u' = Some (failedCount u + int (length as))"
    and "as \<noteq> [] \<and> 5 \<le> failedCount u + int (length as)
                \<longrightarrow> lockedUntil u' = Some (clock (fst (last as)) 1 + 15 * 60 * 1000)"
    by blast
  with ne five
  show "\<exists>u'. getUserByEmail (users (snd (loginAttempts email_in as w)))
                   (normalizeEmail email_in) = Some u'
              \<and> failedLoginAttempts u' = Some 5
              \<and> lockedUntil u' = Some (clock (fst (last as)) 1 + 15 * 60 * 1000)"
    by auto
qed

theorem loginUser_failed_attempt_witness:
  "getUserByEmail (users world0) (normalizeEmail '' carol@example.COM'') = Some carol
   \<and> \<not> bcrypt_compare env0 ''guess'' (passHash carol)
   \<and> loginUser env0 '' carol@example.COM'' ''guess'' None None None None world0
        = (Inl (AuthError INVALID_CREDENTIALS),
           world0\<lparr> users := [alice, bob,
                               carol\<lparr> failedLoginAttempts := Some 1,
                                      updatedAt := 1700000000001 \<rparr>],
                    events := [BcryptCompare ''guess'' ''h:C4rol#pw'', WriteUsers] \<rparr>)
   \<and> getUserByEmail (users world0) (normalizeEmail ''bob@example.com'') = Some bob
   \<and> \<not> bcrypt_compare env0 ''guess'' (passHash bob)
   \<and> loginUser env0 ''bob@example.com'' ''guess'' None None None None world0
        = (Inl (AuthError INVALID_CREDENTIALS),
           world0\<lparr> users := [alice,
                               bob\<lparr> failedLoginAttempts := Some 5,
                                    lockedUntil := Some 1700000900001,
                                    updatedAt := 1700000000002 \<rparr>,
                               carol],
                    events := [BcryptCompare ''guess'' ''h:Passw0rd!'', WriteUsers] \<rparr>)
   \<and> bcrypt_compare env0 ''C4rol#pw'' (passHash carol)
   \<and> mfaEnabled carol = Some True \<and> ''000000'' \<noteq> []
   \<and> fst (loginUser env0 '' carol@example.COM'' ''C4rol#pw'' (Some ''000000'') None None None world0)
        = Inl (AuthError MFA_INVALID)
   \<and> failedCount carol = 0 \<and> length attempts5 = 5
   \<and> fst (loginAttempts '' carol@example.COM'' attempts5 world0) =
        [Inl (AuthError INVALID_CREDENTIALS), Inl (AuthError MFA_INVALID),
         Inl (AuthError INVALID_CREDENTIALS), Inl (AuthError MFA_INVALID),
         Inl (AuthError INVALID_CREDENTIALS)]
   \<and> map_option failedLoginAttempts
        (getUserByEmail (users (snd (loginAttempts '' carol@example.COM'' attempts5 world0)))
           (normalizeEmail '' carol@example.COM'')) = Some (Some 5)
   \<and> map_option lockedUntil
        (getUserByEmail (users (snd (loginAttempts '' carol@example.COM'' attempts5 world0)))
           (normalizeEmail '' carol@example.COM'')) = Some (Some (1700000240001 + 15 * 60 * 1000))"
proof -
  have found: "getUserByEmail (users world0) (normalizeEmail '' carol@example.COM'') = Some carol"
    by code_simp
  have nl: "\<not> (\<exists>l. lockedUntil carol = Some l \<and> 0 < l \<and> clock env0 0 < l)"
    by (simp add: carol_def)
  have bad: "\<not> bcrypt_compare env0 ''guess'' (passHash carol)"
    by (simp add: env0_def carol_def)
  have foundb: "getUserByEmail (users world0) (normalizeEmail ''bob@example.com'') = Some bob"
    by code_simp
  have nlb: "\<not> (\<exists>l. lockedUntil bob = Some l \<and> 0 < l \<and> clock env0 0 < l)"
    by (simp add: bob_def)
  have badb: "\<not> bcrypt_compare env0 ''guess'' (passHash bob)"
    by (simp add: env0_def bob_def)
  have ok: "bcrypt_compare env0 ''C4rol#pw'' (passHash carol)"
    by (simp add: env0_def carol_def)
  have en: "mfaEnabled carol = Some True" by (simp add: carol_def)
  have rej: "\<not> (\<exists>s. mfaSecret carol = Some s \<and> s \<noteq> [] \<and> totp_verify env0 ''000000'' s)"
    by (simp add: env0_def carol_def)
  have fc: "failedCount carol = 0" by (simp add: failedCount_def carol_def)
  have len: "length attempts5 = 5" by (simp add: attempts5_def)
  have rs: "fst (loginAttempts '' carol@example.COM'' attempts5 world0) =
        [Inl (AuthError INVALID_CREDENTIALS), Inl (AuthError MFA_INVALID),
         Inl (AuthError INVALID_CREDENTIALS), Inl (AuthError MFA_INVALID),
         Inl (AuthError INVALID_CREDENTIALS)]"
    by code_simp
  have all: "\<forall>r \<in> set (fst (loginAttempts '' carol@example.COM'' attempts5 world0)).
            r = Inl (AuthError INVALID_CREDENTIALS) \<or> r = Inl (AuthError MFA_INVALID)"
    unfolding rs by simp
  have lastc: "clock (fst (last attempts5)) 1 = 1700000240001"
    by (simp add: attempts5_def envAt_def)
  have wc: "world0\<lparr> users := map (\<lambda>x. if id_user x = id_user carol
                                then (spec_failedAttempt (clock env0 1) carol)
                                       \<lparr> updatedAt := (if 5 \<le> failedCount carol + 1
                                                       then clock env0 2 else clock env0 1) \<rparr>
                                else x) (users world0),
             events := events world0 @ [BcryptCompare ''guess'' (passHash carol), WriteUsers] \<rparr>
        = world0\<lparr> users := [alice, bob,
                               carol\<lparr> failedLoginAttempts := Some 1,
                                      updatedAt := 1700000000001 \<rparr>],
                    events := [BcryptCompare ''guess'' ''h:C4rol#pw'', WriteUsers] \<rparr>"
    by code_simp
  have wb: "world0\<lparr> users := map (\<lambda>x. if id_user x = id_user bob
                                then (spec_failedAttempt (clock env0 1) bob)
                                       \<lparr> updatedAt := (if 5 \<le> failedCount bob + 1
                                                       then clock env0 2 else clock env0 1) \<rparr>
                                else x) (users world0),
             events := events world0 @ [BcryptCompare ''guess'' (passHash bob), WriteUsers] \<rparr>
        = world0\<lparr> users := [alice,
                               bob\<lparr> failedLoginAttempts := Some 5,
                                    lockedUntil := Some 1700000900001,
                                    updatedAt := 1700000000002 \<rparr>,
                               carol],
                    events := [BcryptCompare ''guess'' ''h:Passw0rd!'', WriteUsers] \<rparr>"
    by code_simp
  note inst = loginUser_failed_attempt[of world0 "'' carol@example.COM''" carol env0]
  note instb = loginUser_failed_attempt[of world0 "''bob@example.com''" bob env0]
  have a: "loginUser env0 '' carol@example.COM'' ''guess'' None None None None world0
        = (Inl (AuthError INVALID_CREDENTIALS),
           world0\<lparr> users := [alice, bob,
                               carol\<lparr> failedLoginAttempts := Some 1,
                                      updatedAt := 1700000000001 \<rparr>],
                    events := [BcryptCompare ''guess'' ''h:C4rol#pw'', WriteUsers] \<rparr>)"
    using inst[of "''guess''" None None None None "''x''" 0 "[]"] found nl bad
    unfolding wc by blast
  have a': "loginUser env0 ''bob@example.com'' ''guess'' None None None None world0
        = (Inl (AuthError INVALID_CREDENTIALS),
           world0\<lparr> users := [alice,
                               bob\<lparr> failedLoginAttempts := Some 5,
                                    lockedUntil := Some 1700000900001,
                                    updatedAt := 1700000000002 \<rparr>,
                               carol],
                    events := [BcryptCompare ''guess'' ''h:Passw0rd!'', WriteUsers] \<rparr>)"
    using instb[of "''guess''" None None None None "''x''" 0 "[]"] foundb nlb badb
    unfolding wb by blast
  have b: "fst (loginUser env0 '' carol@example.COM'' ''C4rol#pw'' (Some ''000000'') None None None world0)
        = Inl (AuthError MFA_INVALID)"
    using inst[of "''C4rol#pw''" None None None None "''000000''" 0 "[]"] found nl ok en rej
    by simp
  have c: "\<exists>u'. getUserByEmail (users (snd (loginAttempts '' carol@example.COM'' attempts5 world0)))
                   (normalizeEmail '' carol@example.COM'') = Some u'
              \<and> failedLoginAttempts u' = Some 5
              \<and> lockedUntil u' = Some (clock (fst (last attempts5)) 1 + 15 * 60 * 1000)"
    using inst[of "''guess''" None None None None "''x''" 0 attempts5] found fc len all by blast
  from c lastc have d: "map_option failedLoginAttempts
        (getUserByEmail (users (snd (loginAttempts '' carol@example.COM'' attempts5 world0)))
           (normalizeEmail '' carol@example.COM'')) = Some (Some 5)"
    and e: "map_option lockedUntil
        (getUserByEmail (users (snd (loginAttempts '' carol@example.COM'' attempts5 world0)))
           (normalizeEmail '' carol@example.COM'')) = Some (Some (1700000240001 + 15 * 60 * 1000))"
    by auto
  from found bad a foundb badb a' ok en b fc len rs d e show ?thesis by simp
qed

text \<open>
  Claim C10. When \<open>verifyMfa\<close> finds the user with a stored secret and the TOTP
  library rejects the code, it returns \<open>false\<close>; the users and the sessions are
  those of the state before, the only event logged is the call of the library (no
  write of the users file), and the user read back is the same record.
\<close>

theorem verifyMfa_rejected:
  assumes "getUserById (users w) uid = Some u"
    and "mfaSecret u = Some secret" and "secret \<noteq> []"
    and "\<not> totp_verify env code secret"
  shows "fst (verifyMfa env uid code w) = Inr False
     \<and> users (snd (verifyMfa env uid code w)) = users w
     \<and> sessions (snd (verifyMfa env uid code w)) = sessions w
     \<and> events (snd (verifyMfa env uid code w)) = events w @ [TotpVerify code secret]
     \<and> getUserById (users (snd (verifyMfa env uid code w))) uid = Some u"
  using assms by (simp add: verifyMfa_def truthy_def emit_def Let_def)

theorem verifyMfa_rejected_witness:
  "getUserById (users world0) ''u-2'' = Some bob
   \<and> mfaSecret bob = Some ''KRSXG5A='' \<and> ''KRSXG5A='' \<noteq> []
   \<and> \<not> totp_verify env0 ''654321'' ''KRSXG5A=''
   \<and> fst (verifyMfa env0 ''u-2'' ''654321'' world0) = Inr False
   \<and> users (snd (verifyMfa env0 ''u-2'' ''654321'' world0)) = users world0
   \<and> events (snd (verifyMfa env0 ''u-2'' ''654321'' world0))
        = events world0 @ [TotpVerify ''654321'' ''KRSXG5A='']"
proof -
  have g: "getUserById (users world0) ''u-2'' = Some bob"
    by (simp add: getUserById_def world0_def alice_def bob_def)
  have s: "mfaSecret bob = Some ''KRSXG5A=''" by (simp add: bob_def)
  have n: "''KRSXG5A='' \<noteq> []" by simp
  have r: "\<not> totp_verify env0 ''654321'' ''KRSXG5A=''" by (simp add: env0_def)
  from verifyMfa_rejected[OF g s n r] g s r show ?thesis by simp
qed

section \<open>Properties of the effective permissions\<close>

lemma pushAll_append:
  "pushAll all inputs
     = all @ concat (map (\<lambda>i. case i of ARole r \<Rightarrow> permissions r | APermissions ps \<Rightarrow> ps) inputs)"
  by (induction all inputs rule: pushAll.induct) simp_all

text \<open>What the loop of \<open>getEffectivePermissions\<close> pushes for one role name.\<close>

lemma rolesFromCatalogLoop_append:
  "concat (map permissions (rolesFromCatalogLoop cat acc names))
     = concat (map permissions acc)
       @ concat (map (\<lambda>n. case find (\<lambda>r. name r = n) cat of
                            Some r \<Rightarrow> permissions r
                          | None \<Rightarrow> if isRoleName n
                                    then normalizePermissions (getPresetPermissions n)
                                    else []) names)"
  by (induction cat acc names rule: rolesFromCatalogLoop.induct)
     (simp_all add: createRole_def split: option.splits)

lemma normalizePermissions_resolved:
  "normalizePermissions
     (pre @ concat (map (\<lambda>n. case find (\<lambda>r. name r = n) cat of
                            Some r \<Rightarrow> permissions r
                          | None \<Rightarrow> if isRoleName n
                                    then normalizePermissions (getPresetPermissions n)
                                    else []) names) @ post)
   = normalizePermissions (pre @ concat (map (spec_resolveRole cat) names) @ post)"
proof (induction names arbitrary: pre)
  case Nil
  show ?case by simp
next
  case (Cons n names)
  let ?code = "\<lambda>n. case find (\<lambda>r. name r = n) cat of
                            Some r \<Rightarrow> permissions r
                          | None \<Rightarrow> if isRoleName n
                                    then normalizePermissions (getPresetPermissions n)
                                    else []"
  let ?restc = "concat (map ?code names) @ post"
  let ?rests = "concat (map (spec_resolveRole cat) names) @ post"
  have ih: "normalizePermissions ((pre @ spec_resolveRole cat n) @ ?restc)
              = normalizePermissions ((pre @ spec_resolveRole cat n) @ ?rests)"
    by (rule Cons.IH)
  have step: "normalizePermissions (pre @ ?code n @ ?restc)
                = normalizePermissions (pre @ spec_resolveRole cat n @ ?restc)"
  proof (cases "find (\<lambda>r. name r = n) cat")
    case (Some r)
    then show ?thesis by (simp add: spec_resolveRole_def)
  next
    case None
    show ?thesis
    proof (cases "isRoleName n")
      case True
      then have "spec_resolveRole cat n = getPresetPermissions n"
        using None by (auto simp: spec_resolveRole_def getPresetPermissions_def isRoleName_def)
      moreover have "?code n = normalizePermissions (getPresetPermissions n)"
        using None True by simp
      ultimately show ?thesis
        by (simp only: normalizePermissions_absorb)
    next
      case False
      then show ?thesis
        using None by (simp add: spec_resolveRole_def isRoleName_def)
    qed
  qed
  have "normalizePermissions (pre @ concat (map ?code (n # names)) @ post)
          = normalizePermissions (pre @ ?code n @ ?restc)"
    by simp
  also have "\<dots> = normalizePermissions (pre @ spec_resolveRole cat n @ ?restc)"
    by (rule step)
  also have "\<dots> = normalizePermissions ((pre @ spec_resolveRole cat n) @ ?rests)"
    using ih by simp
  also have "\<dots> = normalizePermissions (pre @ concat (map (spec_resolveRole cat) (n # names)) @ post)"
    by simp
  finally show ?case .
qed

text \<open>
  Claim C3. With a non-empty catalog, the effective permissions of a user are the
  normal form of the permissions contributed by each of the user's role names, in
  order, followed by the user's extra permissions, where a role name contributes
  as the specification says (\<open>spec_resolveRole\<close>): the permissions of the catalog
  entry of exactly that name, else those of the preset of that name, else none.
\<close>

theorem getEffectivePermissions_catalog:
  assumes "roleCatalog \<noteq> []"
  shows "getEffectivePermissions user (Some roleCatalog)
           = normalizePermissions
               (concat (map (spec_resolveRole roleCatalog) (roles user)) @ extraPermissions user)"
proof -
  let ?code = "\<lambda>n. case find (\<lambda>r. name r = n) roleCatalog of
                            Some r \<Rightarrow> permissions r
                          | None \<Rightarrow> if isRoleName n
                                    then normalizePermissions (getPresetPermissions n)
                                    else []"
  have "getEffectivePermissions user (Some roleCatalog)
          = normalizePermissions
              (concat (map permissions (rolesFromCatalogLoop roleCatalog [] (roles user)))
               @ extraPermissions user)"
    using assms
    by (simp add: getEffectivePermissions_def mergeRolesPermissions_def pushAll_append
        comp_def)
  also have "\<dots> = normalizePermissions ([] @ concat (map ?code (roles user)) @ extraPermissions user)"
    by (simp add: rolesFromCatalogLoop_append)
  also have "\<dots> = normalizePermissions
               ([] @ concat (map (spec_resolveRole roleCatalog) (roles user)) @ extraPermissions user)"
    by (rule normalizePermissions_resolved)
  finally show ?thesis by simp
qed

theorem getEffectivePermissions_catalog_witness:
  "catalog0 \<noteq> []
   \<and> spec_resolveRole catalog0 ''auditor''
        = [''session:*'', ''audit:*'', ''audit:read'', ''user:list'', ''nonsense'']
   \<and> spec_resolveRole catalog0 ''support''
        = [''user:read'', ''user:list'', ''mfa:verify'', ''auth:login'', ''auth:logout'']
   \<and> spec_resolveRole catalog0 ''ghost'' = []
   \<and> getEffectivePermissions dave (Some catalog0)
        = [''user:read'', ''user:list'', ''mfa:verify'', ''auth:login'', ''auth:logout'',
           ''audit:read'', ''session:*'', ''audit:*'', ''role:*'']"
proof -
  have ne: "catalog0 \<noteq> []" by (simp add: catalog0_def)
  have r1: "spec_resolveRole catalog0 ''auditor''
        = [''session:*'', ''audit:*'', ''audit:read'', ''user:list'', ''nonsense'']"
    and r2: "spec_resolveRole catalog0 ''support''
        = [''user:read'', ''user:list'', ''mfa:verify'', ''auth:login'', ''auth:logout'']"
    and r3: "spec_resolveRole catalog0 ''ghost'' = []"
    by code_simp+
  have n: "normalizePermissions
             (concat (map (spec_resolveRole catalog0) (roles dave)) @ extraPermissions dave)
        = [''user:read'', ''user:list'', ''mfa:verify'', ''auth:login'', ''auth:logout'',
           ''audit:read'', ''session:*'', ''audit:*'', ''role:*'']"
    by code_simp
  from getEffectivePermissions_catalog[OF ne, of dave] n ne r1 r2 r3 show ?thesis by simp
qed

end
